theory Spec2Isabelle
  imports Main "HOL-Library.Word" "HOL-Library.Log_Nat"
begin

section \<open>JavaScript values\<close>

subsection \<open>Strings\<close>

text \<open>
  A JavaScript string is a sequence of 16-bit code units, and \<open>===\<close> on strings is
  equality of these sequences. \<open>ustr\<close> writes a string of ASCII characters as such a
  sequence, \<open>ascii\<close> a single character, \<open>code_unit\<close> the unit with a given number.
\<close>

type_synonym jsstring = "16 word list"

definition ustr :: "string \<Rightarrow> jsstring" where
  "ustr s = map (\<lambda>c. of_nat (of_char c)) s"

definition ascii :: "char \<Rightarrow> 16 word" where
  "ascii c = of_nat (of_char c)"

definition code_unit :: "nat \<Rightarrow> 16 word" where
  "code_unit n = of_nat n"

subsection \<open>Numbers\<close>

text \<open>
  The type \<open>number\<close> is IEEE 754 binary64. A finite value is modelled by the rational it
  denotes, the other values are the two infinities and NaN. The sign of zero is not
  modelled: no operation of the program tells the two zeros apart (\<open>===\<close> does not, and
  \<open>JSON.stringify\<close> writes \<open>0\<close> for both).

  A finite non-zero value is \<open>m * 2 ^ p\<close> with \<open>m\<close> an integer of at most 53 bits and
  \<open>- 1074 \<le> p\<close>. \<open>round53\<close> is the rounding of an exact result to the nearest such
  value, ties to the even \<open>m\<close>, and to an infinity from \<open>2 ^ 1024\<close> on. \<open>ilog2 q\<close> is
  the binary exponent of a positive \<open>q\<close>, and \<open>quantum q\<close> the exponent \<open>p\<close> of the values
  around \<open>q\<close>.
\<close>

datatype jsnum = Fin rat | PInf | NInf | NaN

definition ilog2 :: "rat \<Rightarrow> int" where
  "ilog2 q = (case quotient_of q of (a, b) \<Rightarrow>
     if 2 powi (bitlen a - bitlen b) \<le> q then bitlen a - bitlen b
     else bitlen a - bitlen b - 1)"

definition round_even :: "rat \<Rightarrow> int" where
  "round_even q =
     (if q - of_int \<lfloor>q\<rfloor> < 1 / 2 then \<lfloor>q\<rfloor>
      else if 1 / 2 < q - of_int \<lfloor>q\<rfloor> then \<lfloor>q\<rfloor> + 1
      else if even \<lfloor>q\<rfloor> then \<lfloor>q\<rfloor> else \<lfloor>q\<rfloor> + 1)"

definition quantum :: "rat \<Rightarrow> int" where
  "quantum q = max (ilog2 q - 52) (- 1074)"

definition round_pos :: "rat \<Rightarrow> rat" where
  "round_pos q = of_int (round_even (q / 2 powi quantum q)) * 2 powi quantum q"

definition round53 :: "rat \<Rightarrow> jsnum" where
  "round53 q =
     (if q = 0 then Fin 0
      else if 0 < q then (if 2 ^ 1024 \<le> round_pos q then PInf else Fin (round_pos q))
      else (if 2 ^ 1024 \<le> round_pos (- q) then NInf else Fin (- round_pos (- q))))"

text \<open>
  The rationals that are binary64 values, the numbers that are finite, and the number
  that a decimal literal of a program text denotes.
\<close>

definition is_double :: "rat \<Rightarrow> bool" where
  "is_double q \<longleftrightarrow> round53 q = Fin q"

fun finite_num :: "jsnum \<Rightarrow> bool" where
  "finite_num (Fin q) = is_double q"
| "finite_num _ = False"

definition lit :: "rat \<Rightarrow> jsnum" where
  "lit q = round53 q"

text \<open>\<open>x + y\<close> and \<open>x * y\<close> on numbers: the exact result, rounded.\<close>

fun fadd :: "jsnum \<Rightarrow> jsnum \<Rightarrow> jsnum" where
  "fadd (Fin x) (Fin y) = round53 (x + y)"
| "fadd NaN _ = NaN"
| "fadd _ NaN = NaN"
| "fadd PInf NInf = NaN"
| "fadd NInf PInf = NaN"
| "fadd PInf _ = PInf"
| "fadd _ PInf = PInf"
| "fadd NInf _ = NInf"
| "fadd _ NInf = NInf"

fun fneg :: "jsnum \<Rightarrow> jsnum" where
  "fneg (Fin x) = Fin (- x)"
| "fneg PInf = NInf"
| "fneg NInf = PInf"
| "fneg NaN = NaN"

fun fmul :: "jsnum \<Rightarrow> jsnum \<Rightarrow> jsnum" where
  "fmul (Fin x) (Fin y) = round53 (x * y)"
| "fmul NaN _ = NaN"
| "fmul _ NaN = NaN"
| "fmul PInf (Fin y) = (if y = 0 then NaN else if 0 < y then PInf else NInf)"
| "fmul NInf (Fin y) = (if y = 0 then NaN else if 0 < y then NInf else PInf)"
| "fmul (Fin x) PInf = (if x = 0 then NaN else if 0 < x then PInf else NInf)"
| "fmul (Fin x) NInf = (if x = 0 then NaN else if 0 < x then NInf else PInf)"
| "fmul PInf PInf = PInf"
| "fmul NInf NInf = PInf"
| "fmul PInf NInf = NInf"
| "fmul NInf PInf = NInf"

subsection \<open>Values of JSON texts\<close>

text \<open>
  The values that \<open>JSON.parse\<close> returns and \<open>JSON.stringify\<close> writes: \<open>null\<close>, booleans,
  numbers, strings, arrays, and objects as the list of their properties in the order of
  creation. (JavaScript lists the properties whose names are array indices first; the
  objects of this program have none.)
\<close>

datatype jsval = JNull | JBool bool | JNum jsnum | JStr jsstring
  | JArr "jsval list" | JObj "(jsstring \<times> jsval) list"

section \<open>\<open>JSON.parse\<close>\<close>

text \<open>
  \<open>JSON.parse(text)\<close> of ECMAScript, without a reviver: \<open>None\<close> stands for the
  \<open>SyntaxError\<close> it throws on a text that is not a JSON text. The text is cut into
  tokens first, and the tokens are read by a pushdown automaton.
\<close>

subsection \<open>Tokens\<close>

text \<open>
  White space is tab, line feed, carriage return and space. A string token is closed by
  the next unescaped quote; it holds no code unit below \<open>0x20\<close>, and its escapes are
  \<^verbatim>\<open>\" \\ \/ \b \f \n \r \t\<close> and \<^verbatim>\<open>\u\<close> with four hexadecimal digits.
\<close>

definition is_ws :: "16 word \<Rightarrow> bool" where
  "is_ws c \<longleftrightarrow> c = 9 \<or> c = 10 \<or> c = 13 \<or> c = 32"

definition is_digit :: "16 word \<Rightarrow> bool" where
  "is_digit c \<longleftrightarrow> 48 \<le> unat c \<and> unat c \<le> 57"

definition digit_val :: "16 word \<Rightarrow> nat" where
  "digit_val c = unat c - 48"

definition digits_val :: "jsstring \<Rightarrow> nat" where
  "digits_val ds = foldl (\<lambda>a c. 10 * a + digit_val c) 0 ds"

definition hex_val :: "16 word \<Rightarrow> nat option" where
  "hex_val c =
     (if 48 \<le> unat c \<and> unat c \<le> 57 then Some (unat c - 48)
      else if 97 \<le> unat c \<and> unat c \<le> 102 then Some (unat c - 87)
      else if 65 \<le> unat c \<and> unat c \<le> 70 then Some (unat c - 55)
      else None)"

definition hex4 :: "16 word \<Rightarrow> 16 word \<Rightarrow> 16 word \<Rightarrow> 16 word \<Rightarrow> 16 word option" where
  "hex4 a b c d =
     (case (hex_val a, hex_val b, hex_val c, hex_val d) of
        (Some x, Some y, Some z, Some w) \<Rightarrow> Some (of_nat (((x * 16 + y) * 16 + z) * 16 + w))
      | _ \<Rightarrow> None)"

definition unescape :: "16 word \<Rightarrow> 16 word option" where
  "unescape e =
     (if e = ascii CHR 0x22 then Some 0x22
      else if e = ascii CHR ''/'' then Some 0x2F
      else if e = ascii CHR 0x5C then Some 0x5C
      else if e = ascii CHR ''b'' then Some 8
      else if e = ascii CHR ''f'' then Some 12
      else if e = ascii CHR ''n'' then Some 10
      else if e = ascii CHR ''r'' then Some 13
      else if e = ascii CHR ''t'' then Some 9
      else None)"

datatype token = TLBrack | TRBrack | TLBrace | TRBrace | TComma | TColon
  | TNull | TTrue | TFalse | TNum jsnum | TStr jsstring

fun lex_string :: "jsstring \<Rightarrow> (jsstring \<times> jsstring) option" where
  "lex_string [] = None"
| "lex_string (c # cs) =
     (if c = 0x22 then Some ([], cs)
      else if c = 0x5C then
        (case cs of
           [] \<Rightarrow> None
         | e # r \<Rightarrow>
             if e = ascii CHR ''u'' then
               (case r of
                  h1 # h2 # h3 # h4 # r' \<Rightarrow>
                    (case hex4 h1 h2 h3 h4 of
                       None \<Rightarrow> None
                     | Some u \<Rightarrow> map_option (\<lambda>(s, rest). (u # s, rest)) (lex_string r'))
                | _ \<Rightarrow> None)
             else
               (case unescape e of
                  None \<Rightarrow> None
                | Some u \<Rightarrow> map_option (\<lambda>(s, rest). (u # s, rest)) (lex_string r)))
      else if unat c < 0x20 then None
      else map_option (\<lambda>(s, rest). (c # s, rest)) (lex_string cs))"

text \<open>
  A number token is an optional minus sign, an integer part (\<open>0\<close>, or digits that start
  with a non-zero one), an optional fraction (a dot and digits) and an optional exponent
  (\<open>e\<close> or \<open>E\<close>, an optional sign, digits). Its value is the decimal number it writes,
  rounded to binary64.
\<close>

definition lex_int :: "jsstring \<Rightarrow> (jsstring \<times> jsstring) option" where
  "lex_int cs =
     (case cs of
        [] \<Rightarrow> None
      | c # r \<Rightarrow>
          if c = ascii CHR ''0'' then Some ([c], r)
          else if is_digit c then Some (takeWhile is_digit cs, dropWhile is_digit cs)
          else None)"

definition lex_frac :: "jsstring \<Rightarrow> (jsstring \<times> jsstring) option" where
  "lex_frac cs =
     (case cs of
        [] \<Rightarrow> Some ([], cs)
      | c # r \<Rightarrow>
          if c = ascii CHR ''.'' then
            (if takeWhile is_digit r = [] then None
             else Some (takeWhile is_digit r, dropWhile is_digit r))
          else Some ([], cs))"

definition lex_exp_digits :: "bool \<Rightarrow> jsstring \<Rightarrow> (int \<times> jsstring) option" where
  "lex_exp_digits neg cs =
     (if takeWhile is_digit cs = [] then None
      else Some ((if neg then - int (digits_val (takeWhile is_digit cs))
                  else int (digits_val (takeWhile is_digit cs))), dropWhile is_digit cs))"

definition lex_exp :: "jsstring \<Rightarrow> (int \<times> jsstring) option" where
  "lex_exp cs =
     (case cs of
        [] \<Rightarrow> Some (0, cs)
      | c # r \<Rightarrow>
          if c = ascii CHR ''e'' \<or> c = ascii CHR ''E'' then
            (case r of
               [] \<Rightarrow> None
             | g # r' \<Rightarrow>
                 if g = ascii CHR ''-'' then lex_exp_digits True r'
                 else if g = ascii CHR ''+'' then lex_exp_digits False r'
                 else lex_exp_digits False r)
          else Some (0, cs))"

definition number_value :: "bool \<Rightarrow> jsstring \<Rightarrow> jsstring \<Rightarrow> int \<Rightarrow> jsnum" where
  "number_value neg ip fp ex =
     round53 ((if neg then - 1 else 1) *
       (of_nat (digits_val (ip @ fp)) * 10 powi (ex - int (length fp))))"

definition lex_unsigned :: "bool \<Rightarrow> jsstring \<Rightarrow> (jsnum \<times> jsstring) option" where
  "lex_unsigned neg cs =
     (case lex_int cs of
        None \<Rightarrow> None
      | Some (ip, c2) \<Rightarrow>
          (case lex_frac c2 of
             None \<Rightarrow> None
           | Some (fp, c3) \<Rightarrow>
               (case lex_exp c3 of
                  None \<Rightarrow> None
                | Some (ex, c4) \<Rightarrow> Some (number_value neg ip fp ex, c4))))"

definition lex_number :: "jsstring \<Rightarrow> (jsnum \<times> jsstring) option" where
  "lex_number cs =
     (case cs of
        [] \<Rightarrow> None
      | c # r \<Rightarrow> if c = ascii CHR ''-'' then lex_unsigned True r else lex_unsigned False cs)"

text \<open>Every token takes at least one code unit, which is why \<open>tokenize\<close> terminates.\<close>

lemma lex_string_length: "lex_string cs = Some (s, rest) \<Longrightarrow> length rest < length cs"
proof (induction cs arbitrary: s rest rule: lex_string.induct)
  case 1 then show ?case by simp
next
  case (2 c cs)
  then show ?case
    by (fastforce split: if_splits list.splits option.splits)
qed

lemma lex_int_length: "lex_int cs = Some (ip, rest) \<Longrightarrow> length rest < length cs"
  by (auto simp: lex_int_def split: list.splits if_splits
      intro: le_imp_less_Suc length_dropWhile_le)

lemma lex_frac_length: "lex_frac cs = Some (fp, rest) \<Longrightarrow> length rest \<le> length cs"
  by (auto simp: lex_frac_def split: list.splits if_splits
      intro: le_SucI length_dropWhile_le)

lemma lex_exp_length: "lex_exp cs = Some (ex, rest) \<Longrightarrow> length rest \<le> length cs"
  by (auto simp: lex_exp_def lex_exp_digits_def split: list.splits if_splits
      intro: le_SucI length_dropWhile_le)

lemma lex_unsigned_length: "lex_unsigned neg cs = Some (x, rest) \<Longrightarrow> length rest < length cs"
  by (auto simp: lex_unsigned_def split: option.splits
      dest!: lex_int_length lex_frac_length lex_exp_length)

lemma lex_number_length: "lex_number cs = Some (x, rest) \<Longrightarrow> length rest < length cs"
  by (auto simp: lex_number_def split: list.splits if_splits dest!: lex_unsigned_length)

function tokenize :: "jsstring \<Rightarrow> token list option" where
  "tokenize [] = Some []"
| "tokenize (c # cs) =
     (if is_ws c then tokenize cs
      else if c = ascii CHR ''['' then map_option ((#) TLBrack) (tokenize cs)
      else if c = ascii CHR '']'' then map_option ((#) TRBrack) (tokenize cs)
      else if c = ascii CHR ''{'' then map_option ((#) TLBrace) (tokenize cs)
      else if c = ascii CHR ''}'' then map_option ((#) TRBrace) (tokenize cs)
      else if c = ascii CHR '','' then map_option ((#) TComma) (tokenize cs)
      else if c = ascii CHR '':'' then map_option ((#) TColon) (tokenize cs)
      else if c = ascii CHR 0x22 then
        (case lex_string cs of
           None \<Rightarrow> None
         | Some (s, rest) \<Rightarrow> map_option ((#) (TStr s)) (tokenize rest))
      else if c = ascii CHR ''-'' \<or> is_digit c then
        (case lex_number (c # cs) of
           None \<Rightarrow> None
         | Some (x, rest) \<Rightarrow> map_option ((#) (TNum x)) (tokenize rest))
      else if take 4 (c # cs) = ustr ''null'' then map_option ((#) TNull) (tokenize (drop 3 cs))
      else if take 4 (c # cs) = ustr ''true'' then map_option ((#) TTrue) (tokenize (drop 3 cs))
      else if take 5 (c # cs) = ustr ''false'' then map_option ((#) TFalse) (tokenize (drop 4 cs))
      else None)"
  by pat_completeness auto
termination
proof (relation "measure length")
  show "wf (measure length)" by simp
qed (auto dest: lex_string_length lex_number_length)

subsection \<open>The grammar\<close>

text \<open>
  The automaton keeps a stack of the arrays and objects that are open, each with what it
  holds so far, and a mode: what may come next. A property that occurs twice keeps its
  first place and takes the later value, as \<open>CreateDataProperty\<close> does.
\<close>

fun set_property :: "jsstring \<Rightarrow> jsval \<Rightarrow> (jsstring \<times> jsval) list \<Rightarrow> (jsstring \<times> jsval) list" where
  "set_property k v [] = [(k, v)]"
| "set_property k v ((k', v') # ms) =
     (if k' = k then (k, v) # ms else (k', v') # set_property k v ms)"

datatype frame = FArr "jsval list" | FObj "(jsstring \<times> jsval) list" jsstring

datatype mode = MValue | MArrStart | MObjStart | MKey "(jsstring \<times> jsval) list"
  | MColon "(jsstring \<times> jsval) list" jsstring | MAfter jsval

fun start_value :: "frame list \<Rightarrow> token \<Rightarrow> (frame list \<times> mode) option" where
  "start_value st TNull = Some (st, MAfter JNull)"
| "start_value st TTrue = Some (st, MAfter (JBool True))"
| "start_value st TFalse = Some (st, MAfter (JBool False))"
| "start_value st (TNum x) = Some (st, MAfter (JNum x))"
| "start_value st (TStr s) = Some (st, MAfter (JStr s))"
| "start_value st TLBrack = Some (st, MArrStart)"
| "start_value st TLBrace = Some (st, MObjStart)"
| "start_value st _ = None"

fun parse_step :: "frame list \<times> mode \<Rightarrow> token \<Rightarrow> (frame list \<times> mode) option" where
  "parse_step (st, MValue) t = start_value st t"
| "parse_step (st, MArrStart) t =
     (if t = TRBrack then Some (st, MAfter (JArr [])) else start_value (FArr [] # st) t)"
| "parse_step (st, MObjStart) t =
     (case t of TRBrace \<Rightarrow> Some (st, MAfter (JObj [])) | TStr k \<Rightarrow> Some (st, MColon [] k)
      | _ \<Rightarrow> None)"
| "parse_step (st, MKey ms) t = (case t of TStr k \<Rightarrow> Some (st, MColon ms k) | _ \<Rightarrow> None)"
| "parse_step (st, MColon ms k) t = (if t = TColon then Some (FObj ms k # st, MValue) else None)"
| "parse_step ([], MAfter v) t = None"
| "parse_step (FArr es # st, MAfter v) t =
     (if t = TComma then Some (FArr (es @ [v]) # st, MValue)
      else if t = TRBrack then Some (st, MAfter (JArr (es @ [v])))
      else None)"
| "parse_step (FObj ms k # st, MAfter v) t =
     (if t = TComma then Some (st, MKey (set_property k v ms))
      else if t = TRBrace then Some (st, MAfter (JObj (set_property k v ms)))
      else None)"

fun parse_run :: "(frame list \<times> mode) option \<Rightarrow> token list \<Rightarrow> (frame list \<times> mode) option" where
  "parse_run s [] = s"
| "parse_run None (t # ts) = None"
| "parse_run (Some s) (t # ts) = parse_run (parse_step s t) ts"

definition parse_tokens :: "token list \<Rightarrow> jsval option" where
  "parse_tokens ts =
     (case parse_run (Some ([], MValue)) ts of Some ([], MAfter v) \<Rightarrow> Some v | _ \<Rightarrow> None)"

definition JSON_parse :: "jsstring \<Rightarrow> jsval option" where
  "JSON_parse text = (case tokenize text of None \<Rightarrow> None | Some ts \<Rightarrow> parse_tokens ts)"

section \<open>\<open>JSON.stringify\<close>\<close>

subsection \<open>Strings\<close>

text \<open>
  \<open>QuoteJSONString\<close>: the quote, the backslash and the code units below \<open>0x20\<close> are
  escaped, the short escapes where there is one; a surrogate that is not half of a pair
  is written as a \<^verbatim>\<open>\u\<close> escape with lower-case digits; every other code unit stands for
  itself.
\<close>

definition hex_char :: "nat \<Rightarrow> 16 word" where
  "hex_char d = (if d < 10 then code_unit (48 + d) else code_unit (87 + d))"

definition unicode_escape :: "16 word \<Rightarrow> jsstring" where
  "unicode_escape c =
     [0x5C, ascii CHR ''u'', hex_char (unat c div 4096), hex_char (unat c div 256 mod 16),
      hex_char (unat c div 16 mod 16), hex_char (unat c mod 16)]"

definition is_lead :: "16 word \<Rightarrow> bool" where
  "is_lead c \<longleftrightarrow> 0xD800 \<le> unat c \<and> unat c \<le> 0xDBFF"

definition is_trail :: "16 word \<Rightarrow> bool" where
  "is_trail c \<longleftrightarrow> 0xDC00 \<le> unat c \<and> unat c \<le> 0xDFFF"

definition escape_unit :: "16 word \<Rightarrow> jsstring" where
  "escape_unit c =
     (if c = 8 then [0x5C, ascii CHR ''b'']
      else if c = 9 then [0x5C, ascii CHR ''t'']
      else if c = 10 then [0x5C, ascii CHR ''n'']
      else if c = 12 then [0x5C, ascii CHR ''f'']
      else if c = 13 then [0x5C, ascii CHR ''r'']
      else if c = 0x22 then [0x5C, 0x22]
      else if c = 0x5C then [0x5C, 0x5C]
      else if unat c < 0x20 \<or> is_lead c \<or> is_trail c then unicode_escape c
      else [c])"

fun quote_units :: "jsstring \<Rightarrow> jsstring" where
  "quote_units [] = []"
| "quote_units (c # cs) =
     (if is_lead c then
        (case cs of
           [] \<Rightarrow> unicode_escape c
         | d # ds \<Rightarrow> if is_trail d then c # d # quote_units ds
                     else unicode_escape c @ quote_units cs)
      else escape_unit c @ quote_units cs)"

definition QuoteJSONString :: "jsstring \<Rightarrow> jsstring" where
  "QuoteJSONString s = [0x22] @ quote_units s @ [0x22]"

subsection \<open>Numbers\<close>

text \<open>
  \<open>Number::toString\<close> writes a finite number \<open>x\<close> with the digits of the least \<open>k\<close> for
  which there are \<open>s\<close> with \<open>k\<close> digits and \<open>n\<close> such that \<open>s * 10 ^ (n - k)\<close> rounds to
  \<open>x\<close>, and, of two such \<open>s\<close>, the one closer to \<open>x\<close>. \<open>shortest_decimal\<close> looks for
  the pair \<open>(s, n - k)\<close> among the two neighbours of \<open>x\<close> with \<open>k\<close> digits, for \<open>k\<close> from
  1 to 17 (seventeen digits are known to be enough for binary64); the exact decimal
  expansion of \<open>x\<close> stands at the end to make the function total. \<open>format_decimal\<close> lays the digits out as
  ECMAScript does: plain up to \<open>10 ^ 21\<close>, with leading zeros down to \<open>10 ^ - 6\<close>, with an
  exponent otherwise.
\<close>

definition digit_char :: "nat \<Rightarrow> 16 word" where
  "digit_char d = code_unit (48 + d)"

function digits_of :: "nat \<Rightarrow> jsstring" where
  "digits_of n =
     (if n < 10 then [digit_char n] else digits_of (n div 10) @ [digit_char (n mod 10)])"
  by pat_completeness auto
termination
  by (relation "measure id") auto

declare digits_of.simps [simp del]

definition decimal_exponent :: "rat \<Rightarrow> int" where
  "decimal_exponent x = (case find (\<lambda>n. x < 10 powi n) [- 330..310] of Some n \<Rightarrow> n | None \<Rightarrow> 311)"

definition candidates :: "rat \<Rightarrow> nat \<Rightarrow> (nat \<times> int) list" where
  "candidates x k =
     (let t = decimal_exponent x - int k;
          lo = nat \<lfloor>x / 10 powi t\<rfloor>;
          below = (lo, t);
          above = (if lo + 1 = 10 ^ k then (10 ^ (k - 1), t + 1) else (lo + 1, t));
          d_below = x - of_nat lo * 10 powi t;
          d_above = of_nat (lo + 1) * 10 powi t - x
      in if d_below < d_above \<or> (d_below = d_above \<and> even lo) then [below, above]
         else [above, below])"

definition exact_decimal :: "rat \<Rightarrow> nat \<times> int" where
  "exact_decimal x =
     (if 0 \<le> quantum x then (nat (round_even (x / 2 powi quantum x)) * 2 ^ nat (quantum x), 0)
      else (nat (round_even (x / 2 powi quantum x)) * 5 ^ nat (- quantum x), quantum x))"

definition denotes :: "rat \<Rightarrow> nat \<times> int \<Rightarrow> bool" where
  "denotes x c \<longleftrightarrow> 0 < fst c \<and> round53 (of_nat (fst c) * 10 powi snd c) = Fin x"

definition shortest_decimal :: "rat \<Rightarrow> nat \<times> int" where
  "shortest_decimal x =
     (case find (denotes x) (concat (map (candidates x) [1..<18])) of
        Some c \<Rightarrow> c
      | None \<Rightarrow> exact_decimal x)"

definition format_decimal :: "nat \<times> int \<Rightarrow> jsstring" where
  "format_decimal c =
     (let ds = digits_of (fst c); k = int (length ds); n = snd c + k
      in if k \<le> n \<and> n \<le> 21 then ds @ replicate (nat (n - k)) (ascii CHR ''0'')
         else if 0 < n \<and> n \<le> 21 then take (nat n) ds @ [ascii CHR ''.''] @ drop (nat n) ds
         else if - 6 < n \<and> n \<le> 0 then
           [ascii CHR ''0'', ascii CHR ''.''] @ replicate (nat (- n)) (ascii CHR ''0'') @ ds
         else (if k = 1 then ds else [hd ds, ascii CHR ''.''] @ tl ds) @ [ascii CHR ''e''] @
              (if 0 \<le> n - 1 then [ascii CHR ''+''] else [ascii CHR ''-'']) @
              digits_of (nat \<bar>n - 1\<bar>))"

definition number_to_string :: "rat \<Rightarrow> jsstring" where
  "number_to_string x =
     (if x = 0 then [ascii CHR ''0'']
      else if x < 0 then ascii CHR ''-'' # format_decimal (shortest_decimal (- x))
      else format_decimal (shortest_decimal x))"

subsection \<open>Values\<close>

text \<open>
  \<open>JSON.stringify(value, null, space)\<close> with a number for \<open>space\<close>: the gap is that many
  spaces, ten at most, and an empty gap leaves out every line break and the space after
  a colon. A number that is not finite is written \<open>null\<close>.
\<close>

definition indent :: "nat \<Rightarrow> nat \<Rightarrow> jsstring" where
  "indent space l = replicate (min 10 space * l) 0x20"

definition line_break :: "nat \<Rightarrow> nat \<Rightarrow> jsstring" where
  "line_break space l = (if space = 0 then [] else 10 # indent space l)"

definition colon :: "nat \<Rightarrow> jsstring" where
  "colon space = (if space = 0 then [ascii CHR '':''] else [ascii CHR '':'', 0x20])"

fun serialize :: "nat \<Rightarrow> nat \<Rightarrow> jsval \<Rightarrow> jsstring"
  and serialize_elems :: "nat \<Rightarrow> nat \<Rightarrow> jsval list \<Rightarrow> jsstring"
  and serialize_members :: "nat \<Rightarrow> nat \<Rightarrow> (jsstring \<times> jsval) list \<Rightarrow> jsstring" where
  "serialize g l JNull = ustr ''null''"
| "serialize g l (JBool b) = (if b then ustr ''true'' else ustr ''false'')"
| "serialize g l (JNum x) = (case x of Fin q \<Rightarrow> number_to_string q | _ \<Rightarrow> ustr ''null'')"
| "serialize g l (JStr s) = QuoteJSONString s"
| "serialize g l (JArr vs) =
     (if vs = [] then ustr ''[]''
      else ascii CHR ''['' # line_break g (Suc l) @ serialize_elems g (Suc l) vs @
           line_break g l @ [ascii CHR '']''])"
| "serialize g l (JObj ms) =
     (if ms = [] then ustr ''{}''
      else ascii CHR ''{'' # line_break g (Suc l) @ serialize_members g (Suc l) ms @
           line_break g l @ [ascii CHR ''}''])"
| "serialize_elems g l [] = []"
| "serialize_elems g l (v # vs) =
     serialize g l v @
     (if vs = [] then [] else ascii CHR '','' # line_break g l @ serialize_elems g l vs)"
| "serialize_members g l [] = []"
| "serialize_members g l (m # ms) =
     QuoteJSONString (fst m) @ colon g @ serialize g l (snd m) @
     (if ms = [] then [] else ascii CHR '','' # line_break g l @ serialize_members g l ms)"

definition JSON_stringify :: "nat \<Rightarrow> jsval \<Rightarrow> jsstring" where
  "JSON_stringify space v = serialize space 0 v"

section \<open>The catalog: \<open>useInventory\<close>\<close>

text \<open>
  \<^verbatim>\<open>
  export interface Product {
    id: string; barcode: string; name: string;
    price: number; stock: number; category?: string;
  }
  \<close>
  The field \<open>id\<close> is called \<open>idP\<close>, since \<open>id\<close> is the identity function of HOL. An
  absent \<open>category\<close> is \<open>None\<close>.
\<close>

record Product =
  idP :: jsstring
  barcode :: jsstring
  name :: jsstring
  price :: jsnum
  stock :: jsnum
  category :: "jsstring option"

text \<open>
  The hook keeps the catalog in the state variable \<open>products\<close>, and every operation
  hands React a function from the previous list to the next one. None of them writes to
  an object or an array in place: \<open>[...prev, product]\<close>, \<open>map\<close> and \<open>filter\<close> build new
  arrays, so lists of records as values model the catalog. (The objects themselves, which
  the cart and the form share with the catalog, are kept by reference in the store of the
  section on the checkout.)
  \<^verbatim>\<open>
  const addProduct = (product: Product) => {
    setProducts(prev => [...prev, product]);
  };
  const updateProduct = (updatedProduct: Product) => {
    setProducts(prev => prev.map(p => p.id === updatedProduct.id ? updatedProduct : p));
  };
  const deleteProduct = (id: string) => {
    setProducts(prev => prev.filter(p => p.id !== id));
  };
  const findByBarcode = (barcode: string) => {
    return products.find(p => p.barcode === barcode);
  };
  \<close>
\<close>

definition addProduct :: "Product \<Rightarrow> Product list \<Rightarrow> Product list" where
  "addProduct product prev = prev @ [product]"

definition updateProduct :: "Product \<Rightarrow> Product list \<Rightarrow> Product list" where
  "updateProduct updatedProduct prev =
     map (\<lambda>p. if idP p = idP updatedProduct then updatedProduct else p) prev"

definition deleteProduct :: "jsstring \<Rightarrow> Product list \<Rightarrow> Product list" where
  "deleteProduct i prev = filter (\<lambda>p. idP p \<noteq> i) prev"

definition findByBarcode :: "jsstring \<Rightarrow> Product list \<Rightarrow> Product option" where
  "findByBarcode b products = find (\<lambda>p. barcode p = b) products"

text \<open>A run of catalog operations, from the empty catalog.\<close>

datatype catalog_op = Add Product | Update Product | Delete jsstring

fun apply_op :: "Product list \<Rightarrow> catalog_op \<Rightarrow> Product list" where
  "apply_op ps (Add p) = addProduct p ps"
| "apply_op ps (Update p) = updateProduct p ps"
| "apply_op ps (Delete i) = deleteProduct i ps"

definition run_ops :: "catalog_op list \<Rightarrow> Product list" where
  "run_ops ops = foldl apply_op [] ops"

subsection \<open>Loading, saving, import and export\<close>

text \<open>
  The types of TypeScript are erased when the program runs, and what \<open>JSON.parse\<close>
  returns goes into \<open>products\<close> unchecked. For these operations the state is therefore
  the value that \<open>products\<close> holds; \<open>catalog_value\<close> is the value of a list of products,
  each an object with the fields of the interface.
\<close>

definition toJS :: "Product \<Rightarrow> jsval" where
  "toJS p =
     JObj ([(ustr ''id'', JStr (idP p)), (ustr ''barcode'', JStr (barcode p)),
            (ustr ''name'', JStr (name p)), (ustr ''price'', JNum (price p)),
            (ustr ''stock'', JNum (stock p))] @
           (case category p of None \<Rightarrow> [] | Some c \<Rightarrow> [(ustr ''category'', JStr c)]))"

definition catalog_value :: "Product list \<Rightarrow> jsval" where
  "catalog_value ps = JArr (map toJS ps)"

text \<open>
  \<^verbatim>\<open>
  const [products, setProducts] = useState<Product[]>([]);
  useEffect(() => {
    const saved = localStorage.getItem('inventory_data');
    if (saved) {
      try {
        setProducts(JSON.parse(saved));
      } catch (e) {
        console.error('Failed to parse inventory data', e);
      }
    }
  }, []);
  useEffect(() => {
    localStorage.setItem('inventory_data', JSON.stringify(products));
  }, [products]);
  \<close>
  \<open>load saved\<close> is the catalog after the first effect, where \<open>saved\<close> is what
  \<open>getItem\<close> returned, \<open>None\<close> for \<open>null\<close>; the empty string is falsy. \<open>persist\<close> is the
  text that the second effect stores.
\<close>

definition load :: "jsstring option \<Rightarrow> jsval" where
  "load saved =
     (case saved of
        None \<Rightarrow> JArr []
      | Some s \<Rightarrow>
          if s = [] then JArr []
          else (case JSON_parse s of None \<Rightarrow> JArr [] | Some data \<Rightarrow> data))"

definition persist :: "jsval \<Rightarrow> jsstring" where
  "persist current = JSON_stringify 0 current"

text \<open>
  \<^verbatim>\<open>
  const importData = (jsonString: string) => {
    try {
      const data = JSON.parse(jsonString);
      if (Array.isArray(data)) {
        setProducts(data);
        return true;
      }
    } catch (e) {
      console.error('Import failed', e);
    }
    return false;
  };
  const exportData = () => {
    return JSON.stringify(products, null, 2);
  };
  \<close>
  \<open>importData\<close> returns what the function returns and the catalog after the call.
\<close>

fun isArray :: "jsval \<Rightarrow> bool" where
  "isArray (JArr xs) = True"
| "isArray _ = False"

definition importData :: "jsstring \<Rightarrow> jsval \<Rightarrow> bool \<times> jsval" where
  "importData jsonString current =
     (case JSON_parse jsonString of
        None \<Rightarrow> (False, current)
      | Some data \<Rightarrow> if isArray data then (True, data) else (False, current))"

definition exportData :: "jsval \<Rightarrow> jsstring" where
  "exportData current = JSON_stringify 2 current"

section \<open>The checkout: \<open>App\<close>\<close>

text \<open>
  \<^verbatim>\<open>
  const [cart, setCart] = useState<{ product: Product; quantity: number }[]>([]);
  const [isScanning, setIsScanning] = useState(false);
  const [isModalOpen, setIsModalOpen] = useState(false);
  const [editingProduct, setEditingProduct] = useState<Partial<Product> | null>(null);
  \<close>
  The state of the component is a record of these variables and of the catalog of the
  hook. The notifications \<open>toast.success\<close> and \<open>toast.error\<close> are collected in
  \<open>toasts\<close>, each with the text the message interpolates.
\<close>

record CartLine =
  product :: Product
  quantity :: jsnum

datatype toast = ToastSuccess jsstring | ToastError jsstring

record PartialProduct =
  id_opt :: "jsstring option"
  barcode_opt :: "jsstring option"
  name_opt :: "jsstring option"
  price_opt :: "jsnum option"
  stock_opt :: "jsnum option"
  category_opt :: "jsstring option"

record AppState =
  products :: "Product list"
  cart :: "CartLine list"
  isScanning :: bool
  isModalOpen :: bool
  editingProduct :: "PartialProduct option"
  toasts :: "toast list"

text \<open>
  \<^verbatim>\<open>
  const handleScan = useCallback((barcode: string) => {
    const product = findByBarcode(barcode);
    if (product) {
      setCart(prev => {
        const existing = prev.find(item => item.product.barcode === barcode);
        if (existing) {
          return prev.map(item =>
            item.product.barcode === barcode
              ? { ...item, quantity: item.quantity + 1 }
              : item
          );
        }
        return [...prev, { product, quantity: 1 }];
      });
      toast.success(...product.name...);
    } else {
      toast.error(...barcode...);
      setEditingProduct({ barcode, name: '', price: 0, stock: 0 });
      setIsModalOpen(true);
    }
    setIsScanning(false);
  }, [findByBarcode]);
  \<close>
  \<open>addToCart\<close> is the function handed to \<open>setCart\<close>.
\<close>

definition addToCart :: "Product \<Rightarrow> jsstring \<Rightarrow> CartLine list \<Rightarrow> CartLine list" where
  "addToCart found b prev =
     (case find (\<lambda>item. barcode (product item) = b) prev of
        Some existing \<Rightarrow>
          map (\<lambda>item. if barcode (product item) = b
                       then item\<lparr>quantity := fadd (quantity item) (Fin 1)\<rparr>
                       else item) prev
      | None \<Rightarrow> prev @ [\<lparr>product = found, quantity = Fin 1\<rparr>])"

definition handleScan :: "jsstring \<Rightarrow> AppState \<Rightarrow> AppState" where
  "handleScan b st =
     (case findByBarcode b (products st) of
        Some found \<Rightarrow>
          st\<lparr>cart := addToCart found b (cart st),
             toasts := toasts st @ [ToastSuccess (name found)],
             isScanning := False\<rparr>
      | None \<Rightarrow>
          st\<lparr>toasts := toasts st @ [ToastError b],
             editingProduct := Some \<lparr>id_opt = None, barcode_opt = Some b, name_opt = Some [],
               price_opt = Some (Fin 0), stock_opt = Some (Fin 0), category_opt = None\<rparr>,
             isModalOpen := True,
             isScanning := False\<rparr>)"

text \<open>
  \<^verbatim>\<open>
  const totalAmount = cart.reduce((sum, item) => sum + item.product.price * item.quantity, 0);
  \<close>
\<close>

definition totalAmount :: "CartLine list \<Rightarrow> jsnum" where
  "totalAmount c = foldl (\<lambda>sum item. fadd sum (fmul (price (product item)) (quantity item))) (Fin 0) c"

text \<open>\<open>setProducts\<close> with an updater function replaces the catalog and nothing else
  of the state.\<close>

definition setProducts :: "(Product list \<Rightarrow> Product list) \<Rightarrow> AppState \<Rightarrow> AppState" where
  "setProducts f st = st\<lparr>products := f (products st)\<rparr>"

subsection \<open>Objects and references\<close>

text \<open>
  A JavaScript object is reached through a reference, and several variables may hold one
  reference. The program shares product objects in two places: the cart line that
  \<open>handleScan\<close> makes holds the very object that \<open>findByBarcode\<close> found in the catalog
  (\<^verbatim>\<open>{ product, quantity: 1 }\<close>), and the edit button of a product hands the catalog's
  object to the form (\<^verbatim>\<open>setEditingProduct(product)\<close>). What a cart line shows after an
  edit of the catalog therefore depends on whether any code writes to such an object.

  The store keeps the objects by reference. \<open>objects\<close> maps a reference to the fields of
  the object it reaches (an object of the form may lack fields, so the fields are those of
  \<open>Partial<Product>\<close>), \<open>fresh\<close> is the first reference not in use, and the state
  variables hold references where the program holds objects. A cart line is built anew
  whenever its quantity changes (\<^verbatim>\<open>{ ...item, quantity: item.quantity + 1 }\<close>, which
  copies the reference of the product), so the lines are values that hold a reference.
\<close>

type_synonym ref = nat

record CartLine_ref =
  product_ref :: ref
  quantity_ref :: jsnum

record Store =
  objects :: "ref \<Rightarrow> PartialProduct"
  fresh :: ref
  products_ref :: "ref list"
  cart_ref :: "CartLine_ref list"
  isScanning_ref :: bool
  isModalOpen_ref :: bool
  editingProduct_ref :: "ref option"
  toasts_ref :: "toast list"

text \<open>An object literal makes a new object: it takes the first reference not in use.\<close>

definition new_object :: "PartialProduct \<Rightarrow> Store \<Rightarrow> ref \<times> Store" where
  "new_object obj st =
     (fresh st, st\<lparr>objects := (objects st)(fresh st := obj), fresh := Suc (fresh st)\<rparr>)"

text \<open>
  The operations of the hook, on references. \<open>p.id\<close> and \<open>p.barcode\<close> read the object
  that \<open>p\<close> reaches; a field that the object lacks reads \<open>undefined\<close>, here \<open>None\<close>.
  \<^verbatim>\<open>
    setProducts(prev => [...prev, product]);
    setProducts(prev => prev.map(p => p.id === updatedProduct.id ? updatedProduct : p));
    setProducts(prev => prev.filter(p => p.id !== id));
    return products.find(p => p.barcode === barcode);
  \<close>
\<close>

definition addProduct_ref :: "ref \<Rightarrow> Store \<Rightarrow> Store" where
  "addProduct_ref product' st = st\<lparr>products_ref := products_ref st @ [product']\<rparr>"

definition updateProduct_ref :: "ref \<Rightarrow> Store \<Rightarrow> Store" where
  "updateProduct_ref updatedProduct st =
     st\<lparr>products_ref :=
          map (\<lambda>p. if id_opt (objects st p) = id_opt (objects st updatedProduct)
                    then updatedProduct else p) (products_ref st)\<rparr>"

definition deleteProduct_ref :: "jsstring option \<Rightarrow> Store \<Rightarrow> Store" where
  "deleteProduct_ref i st =
     st\<lparr>products_ref := filter (\<lambda>p. id_opt (objects st p) \<noteq> i) (products_ref st)\<rparr>"

definition findByBarcode_ref :: "jsstring \<Rightarrow> Store \<Rightarrow> ref option" where
  "findByBarcode_ref b st = find (\<lambda>p. barcode_opt (objects st p) = Some b) (products_ref st)"

text \<open>
  \<open>handleScan\<close>, on references. The new line holds the reference \<open>found\<close>, and the object
  literal of the other branch is a new object. \<open>interpolate\<close> is the text that a template
  literal shows for a string that may be \<open>undefined\<close>.
\<close>

definition interpolate :: "jsstring option \<Rightarrow> jsstring" where
  "interpolate s = (case s of None \<Rightarrow> ustr ''undefined'' | Some t \<Rightarrow> t)"

definition addToCart_ref :: "ref \<Rightarrow> jsstring \<Rightarrow> Store \<Rightarrow> CartLine_ref list" where
  "addToCart_ref found b st =
     (case find (\<lambda>item. barcode_opt (objects st (product_ref item)) = Some b) (cart_ref st) of
        Some existing \<Rightarrow>
          map (\<lambda>item. if barcode_opt (objects st (product_ref item)) = Some b
                       then item\<lparr>quantity_ref := fadd (quantity_ref item) (Fin 1)\<rparr>
                       else item) (cart_ref st)
      | None \<Rightarrow> cart_ref st @ [\<lparr>product_ref = found, quantity_ref = Fin 1\<rparr>])"

definition handleScan_ref :: "jsstring \<Rightarrow> Store \<Rightarrow> Store" where
  "handleScan_ref b st =
     (case findByBarcode_ref b st of
        Some found \<Rightarrow>
          st\<lparr>cart_ref := addToCart_ref found b st,
             toasts_ref := toasts_ref st @ [ToastSuccess (interpolate (name_opt (objects st found)))],
             isScanning_ref := False\<rparr>
      | None \<Rightarrow>
          (case new_object \<lparr>id_opt = None, barcode_opt = Some b, name_opt = Some [],
                   price_opt = Some (Fin 0), stock_opt = Some (Fin 0), category_opt = None\<rparr> st of
             (e, st') \<Rightarrow>
               st'\<lparr>toasts_ref := toasts_ref st @ [ToastError b],
                   editingProduct_ref := Some e,
                   isModalOpen_ref := True,
                   isScanning_ref := False\<rparr>))"

text \<open>
  The form through which the catalog is edited. The button above the list opens it on a
  new object, the edit button of a product opens it on the object of the catalog:
  \<^verbatim>\<open>
    onClick={() => {
      setEditingProduct({ barcode: '', name: '', price: 0, stock: 0 });
      setIsModalOpen(true);
    }}
    onClick={() => {
      setEditingProduct(product);
      setIsModalOpen(true);
    }}
  \<close>
  Each of the four fields copies the object of the form into a new one with the field
  replaced; \<open>{ ...prev }\<close> of \<open>null\<close> is the object with no field. The price and the
  stock are what \<open>parseFloat\<close> and \<open>parseInt\<close> made of the text typed.
  \<^verbatim>\<open>
    onChange={e => setEditingProduct(prev => ({ ...prev, barcode: e.target.value }))}
    onChange={e => setEditingProduct(prev => ({ ...prev, name: e.target.value }))}
    onChange={e => setEditingProduct(prev => ({ ...prev, price: parseFloat(e.target.value) }))}
    onChange={e => setEditingProduct(prev => ({ ...prev, stock: parseInt(e.target.value) }))}
  \<close>
\<close>

definition openAdd :: "Store \<Rightarrow> Store" where
  "openAdd st =
     (case new_object \<lparr>id_opt = None, barcode_opt = Some [], name_opt = Some [],
              price_opt = Some (Fin 0), stock_opt = Some (Fin 0), category_opt = None\<rparr> st of
        (e, st') \<Rightarrow> st'\<lparr>editingProduct_ref := Some e, isModalOpen_ref := True\<rparr>)"

definition openEdit :: "ref \<Rightarrow> Store \<Rightarrow> Store" where
  "openEdit product' st = st\<lparr>editingProduct_ref := Some product', isModalOpen_ref := True\<rparr>"

definition empty_object :: PartialProduct where
  "empty_object = \<lparr>id_opt = None, barcode_opt = None, name_opt = None, price_opt = None,
                    stock_opt = None, category_opt = None\<rparr>"

definition editField :: "(PartialProduct \<Rightarrow> PartialProduct) \<Rightarrow> Store \<Rightarrow> Store" where
  "editField write st =
     (case new_object
             (write (case editingProduct_ref st of None \<Rightarrow> empty_object
                                                 | Some prev \<Rightarrow> objects st prev)) st of
        (e, st') \<Rightarrow> st'\<lparr>editingProduct_ref := Some e\<rparr>)"

text \<open>
  \<^verbatim>\<open>
  const handleAddOrUpdateProduct = (e: React.FormEvent) => {
    e.preventDefault();
    if (!editingProduct?.barcode || !editingProduct?.name) return;
    if (editingProduct.id) {
      updateProduct(editingProduct as Product);
      toast.success(...);
    } else {
      const newProduct: Product = {
        ...editingProduct as Product,
        id: crypto.randomUUID(),
      };
      addProduct(newProduct);
      toast.success(...);
    }
    setIsModalOpen(false);
    setEditingProduct(null);
  };
  \<close>
  A string is truthy when it is there and not empty. \<open>uuid\<close> is what
  \<open>crypto.randomUUID\<close> returns. The two messages interpolate nothing and are kept whole,
  as their code units.
\<close>

definition truthy :: "jsstring option \<Rightarrow> bool" where
  "truthy s = (case s of None \<Rightarrow> False | Some t \<Rightarrow> t \<noteq> [])"

definition updated_message :: jsstring where
  "updated_message = [0x5546, 0x54C1, 0x5DF2, 0x66F4, 0x65B0]"

definition added_message :: jsstring where
  "added_message = [0x5546, 0x54C1, 0x5DF2, 0x6DFB, 0x52A0]"

definition handleAddOrUpdateProduct :: "jsstring \<Rightarrow> Store \<Rightarrow> Store" where
  "handleAddOrUpdateProduct uuid st =
     (case editingProduct_ref st of
        None \<Rightarrow> st
      | Some e \<Rightarrow>
          if \<not> truthy (barcode_opt (objects st e)) \<or> \<not> truthy (name_opt (objects st e)) then st
          else if truthy (id_opt (objects st e)) then
            (updateProduct_ref e st)
              \<lparr>toasts_ref := toasts_ref st @ [ToastSuccess updated_message],
               isModalOpen_ref := False, editingProduct_ref := None\<rparr>
          else
            (case new_object ((objects st e)\<lparr>id_opt := Some uuid\<rparr>) st of
               (newProduct, st') \<Rightarrow>
                 (addProduct_ref newProduct st')
                   \<lparr>toasts_ref := toasts_ref st @ [ToastSuccess added_message],
                    isModalOpen_ref := False, editingProduct_ref := None\<rparr>))"

text \<open>
  What the user can do to the catalog, as events. The edit and the delete buttons are
  those of the \<open>k\<close>-th product of the list (\<open>products.map(product => ...)\<close>); there is no
  button beyond the list. The argument of \<open>deleteProduct\<close> is the \<open>id\<close> read from the
  object of the button, \<open>None\<close> when the object has none. Every event may occur in every
  state, which is more than the page allows (the fields are there only while the form is
  open). The delete is the confirmed one:
  \<^verbatim>\<open>
    onClick={() => {
      if (confirm(...)) deleteProduct(product.id);
    }}
    <button onClick={() => setIsModalOpen(false)} ...>
  \<close>
\<close>

datatype catalog_event =
    OpenAdd
  | OpenEdit nat
  | TypeBarcode jsstring
  | TypeName jsstring
  | TypePrice jsnum
  | TypeStock jsnum
  | CloseModal
  | Submit jsstring
  | DeleteClick nat

fun catalog_step :: "Store \<Rightarrow> catalog_event \<Rightarrow> Store" where
  "catalog_step st OpenAdd = openAdd st"
| "catalog_step st (OpenEdit k) =
     (if k < length (products_ref st) then openEdit (products_ref st ! k) st else st)"
| "catalog_step st (TypeBarcode v) = editField (\<lambda>prev. prev\<lparr>barcode_opt := Some v\<rparr>) st"
| "catalog_step st (TypeName v) = editField (\<lambda>prev. prev\<lparr>name_opt := Some v\<rparr>) st"
| "catalog_step st (TypePrice x) = editField (\<lambda>prev. prev\<lparr>price_opt := Some x\<rparr>) st"
| "catalog_step st (TypeStock x) = editField (\<lambda>prev. prev\<lparr>stock_opt := Some x\<rparr>) st"
| "catalog_step st CloseModal = st\<lparr>isModalOpen_ref := False\<rparr>"
| "catalog_step st (Submit uuid) = handleAddOrUpdateProduct uuid st"
| "catalog_step st (DeleteClick k) =
     (if k < length (products_ref st)
      then deleteProduct_ref (id_opt (objects st (products_ref st ! k))) st else st)"

definition catalog_run :: "catalog_event list \<Rightarrow> Store \<Rightarrow> Store" where
  "catalog_run evs st = foldl catalog_step st evs"

text \<open>
  In a store that the program has built, every reference that a state variable holds is
  in use.
\<close>

definition wf_store :: "Store \<Rightarrow> bool" where
  "wf_store st \<longleftrightarrow>
     list_all (\<lambda>p. p < fresh st) (products_ref st) \<and>
     list_all (\<lambda>l. product_ref l < fresh st) (cart_ref st) \<and>
     (case editingProduct_ref st of None \<Rightarrow> True | Some e \<Rightarrow> e < fresh st)"

text \<open>
  \<open>preserves st st'\<close>: the store \<open>st'\<close> is well formed, and every object in use in \<open>st\<close>
  has in \<open>st'\<close> the fields it has in \<open>st\<close>.
\<close>

definition preserves :: "Store \<Rightarrow> Store \<Rightarrow> bool" where
  "preserves st st' \<longleftrightarrow> wf_store st' \<and> fresh st \<le> fresh st' \<and>
     (\<forall>r < fresh st. objects st' r = objects st r)"

text \<open>
  The object of a product, and the state of records that a store shows when its objects
  are read through the references.
\<close>

definition object_of :: "Product \<Rightarrow> PartialProduct" where
  "object_of p = \<lparr>id_opt = Some (idP p), barcode_opt = Some (barcode p), name_opt = Some (name p),
                  price_opt = Some (price p), stock_opt = Some (stock p),
                  category_opt = category p\<rparr>"

definition view_of :: "Store \<Rightarrow> AppState \<Rightarrow> bool" where
  "view_of st app \<longleftrightarrow>
     map (objects st) (products_ref st) = map object_of (products app) \<and>
     map (\<lambda>l. (objects st (product_ref l), quantity_ref l)) (cart_ref st) =
       map (\<lambda>l. (object_of (product l), quantity l)) (cart app) \<and>
     isScanning_ref st = isScanning app \<and>
     isModalOpen_ref st = isModalOpen app \<and>
     map_option (objects st) (editingProduct_ref st) = editingProduct app \<and>
     toasts_ref st = toasts app"

section \<open>What the specification speaks of\<close>

text \<open>
  The ids that a run of operations adds, in the order of the additions; the ids that were
  added and not deleted afterwards; and the product that the most recent addition or
  update of an id wrote.
\<close>

fun added_ids :: "catalog_op list \<Rightarrow> jsstring list" where
  "added_ids [] = []"
| "added_ids (Add p # ops) = idP p # added_ids ops"
| "added_ids (Update p # ops) = added_ids ops"
| "added_ids (Delete i # ops) = added_ids ops"

definition live_ids :: "catalog_op list \<Rightarrow> jsstring set" where
  "live_ids ops = {i. \<exists>pre p post. ops = pre @ Add p # post \<and> idP p = i \<and> Delete i \<notin> set post}"

definition latest_write :: "catalog_op list \<Rightarrow> Product \<Rightarrow> bool" where
  "latest_write ops p \<longleftrightarrow>
     (\<exists>pre w post. ops = pre @ w # post \<and> (w = Add p \<or> w = Update p) \<and>
        (\<forall>q. idP q = idP p \<longrightarrow> Add q \<notin> set post \<and> Update q \<notin> set post))"

text \<open>
  The interchange format in the words of the specification: a sequence of product
  records, each with the fields \<open>id\<close>, \<open>barcode\<close> and \<open>name\<close> (strings), \<open>price\<close> and
  \<open>stock\<close> (numbers) and an optional \<open>category\<close> (a string).
\<close>

definition has_string :: "(jsstring \<times> jsval) list \<Rightarrow> jsstring \<Rightarrow> bool" where
  "has_string ms k = (case map_of ms k of Some (JStr s) \<Rightarrow> True | _ \<Rightarrow> False)"

definition has_number :: "(jsstring \<times> jsval) list \<Rightarrow> jsstring \<Rightarrow> bool" where
  "has_number ms k = (case map_of ms k of Some (JNum x) \<Rightarrow> True | _ \<Rightarrow> False)"

definition spec_product_shaped :: "jsval \<Rightarrow> bool" where
  "spec_product_shaped v =
     (case v of
        JObj ms \<Rightarrow>
          has_string ms (ustr ''id'') \<and> has_string ms (ustr ''barcode'') \<and>
          has_string ms (ustr ''name'') \<and> has_number ms (ustr ''price'') \<and>
          has_number ms (ustr ''stock'') \<and>
          (map_of ms (ustr ''category'') = None \<or> has_string ms (ustr ''category''))
      | _ \<Rightarrow> False)"

definition spec_product_sequence :: "jsval \<Rightarrow> bool" where
  "spec_product_sequence v = (case v of JArr xs \<Rightarrow> list_all spec_product_shaped xs | _ \<Rightarrow> False)"

section \<open>Example data\<close>

definition cola :: Product where
  "cola = \<lparr>idP = ustr ''p1'', barcode = ustr ''6901'', name = ustr ''cola'',
            price = Fin (5 / 2), stock = Fin 10, category = None\<rparr>"

definition soda :: Product where
  "soda = \<lparr>idP = ustr ''p2'', barcode = ustr ''6901'', name = ustr ''soda'',
            price = Fin 3, stock = Fin 4, category = Some (ustr ''drinks'')\<rparr>"

definition cola2 :: Product where
  "cola2 = cola\<lparr>price := Fin 3\<rparr>"

definition overpriced :: Product where
  "overpriced = cola\<lparr>price := PInf\<rparr>"

definition priced :: "rat \<Rightarrow> Product" where
  "priced q = cola\<lparr>price := lit q\<rparr>"

definition shop :: AppState where
  "shop = \<lparr>products = [cola, soda], cart = [], isScanning = True, isModalOpen = False,
            editingProduct = None, toasts = []\<rparr>"

definition history :: "catalog_op list" where
  "history = [Add cola, Add soda, Update cola2, Delete (ustr ''p2'')]"

text \<open>
  The store of \<open>shop\<close>: the two products are the objects 0 and 1, and object 2 is a
  copy of the first with another price, in no list yet. \<open>scanned\<close> is the store after
  the scan of the barcode of the first product.
\<close>

definition stocked :: Store where
  "stocked = \<lparr>objects = (\<lambda>r. empty_object)
                (0 := object_of cola, 1 := object_of soda, 2 := object_of cola2),
              fresh = 3, products_ref = [0, 1], cart_ref = [], isScanning_ref = True,
              isModalOpen_ref = False, editingProduct_ref = None, toasts_ref = []\<rparr>"

definition scanned :: Store where
  "scanned = stocked\<lparr>cart_ref := [\<lparr>product_ref = 0, quantity_ref = Fin 1\<rparr>],
                     toasts_ref := [ToastSuccess (ustr ''cola'')], isScanning_ref := False\<rparr>"

section \<open>Rounding to binary64\<close>

lemma powi2_pos [simp]: "0 < (2::rat) powi e"
  by (simp add: zero_less_power_int)

lemma powi2_mono: "a \<le> b \<Longrightarrow> (2::rat) powi a \<le> 2 powi b"
  by (rule power_int_increasing) simp_all

lemma powi2_strict_mono: "a < b \<Longrightarrow> (2::rat) powi a < 2 powi b"
  by (rule power_int_strict_increasing) simp_all

lemma powi2_le_iff [simp]: "(2::rat) powi a \<le> 2 powi b \<longleftrightarrow> a \<le> b"
  by (meson linorder_not_less powi2_mono powi2_strict_mono)

lemma powi2_less_iff [simp]: "(2::rat) powi a < 2 powi b \<longleftrightarrow> a < b"
  by (meson linorder_not_less powi2_mono powi2_strict_mono)

lemma powi2_add: "(2::rat) powi (a + b) = 2 powi a * 2 powi b"
  by (rule power_int_add) simp

lemma powi2_diff: "(2::rat) powi (a - b) = 2 powi a / 2 powi b"
  by (rule power_int_diff) simp

lemma bitlen_bounds_rat:
  assumes "0 < a"
  shows "2 powi (bitlen a - 1) \<le> (of_int a :: rat)" and "(of_int a :: rat) < 2 powi bitlen a"
proof -
  have l: "1 \<le> bitlen a" using assms bitlen_eq_zero_iff[of a] bitlen_nonneg[of a] by linarith
  have "(2::int) ^ nat (bitlen a - 1) \<le> a" and "a < 2 ^ nat (bitlen a)"
    using bitlen_bounds[OF assms] by simp_all
  then have "(of_int (2 ^ nat (bitlen a - 1)) :: rat) \<le> of_int a" and "(of_int a :: rat) < of_int (2 ^ nat (bitlen a))"
    by (simp_all only: of_int_le_iff of_int_less_iff)
  then show "2 powi (bitlen a - 1) \<le> (of_int a :: rat)" and "(of_int a :: rat) < 2 powi bitlen a"
    using l by (simp_all add: power_int_def)
qed

lemma ilog2_bounds:
  assumes "0 < q"
  shows "2 powi ilog2 q \<le> q" and "q < 2 powi (ilog2 q + 1)"
proof -
  obtain a b where ab: "quotient_of q = (a, b)" by (cases "quotient_of q")
  have b: "0 < b" using ab by (rule quotient_of_denom_pos)
  have q: "q = of_int a / of_int b" using ab by (rule quotient_of_div)
  have a: "0 < a" using assms b q by (simp add: zero_less_divide_iff)
  define e where "e = bitlen a - bitlen b"
  note A = bitlen_bounds_rat[OF a] and B = bitlen_bounds_rat[OF b]
  have b': "(0::rat) < of_int b" using b by simp
  have "q < 2 powi bitlen a / 2 powi (bitlen b - 1)"
    unfolding q by (intro frac_less) (use A B b' a in simp_all)
  then have up: "q < 2 powi (e + 1)"
    by (simp add: e_def flip: powi2_diff) (simp add: algebra_simps)
  have "2 powi (bitlen a - 1) / 2 powi bitlen b \<le> q"
    unfolding q by (intro frac_le) (use A B b' a in simp_all)
  then have lo: "2 powi (e - 1) \<le> q"
    by (simp add: e_def flip: powi2_diff) (simp add: algebra_simps)
  have il: "ilog2 q = (if 2 powi e \<le> q then e else e - 1)"
    by (simp add: ilog2_def ab e_def)
  show "2 powi ilog2 q \<le> q" using lo by (simp add: il)
  show "q < 2 powi (ilog2 q + 1)" using up by (auto simp add: il)
qed

lemma ilog2_unique:
  assumes "2 powi e \<le> q" and "q < 2 powi (e + 1)"
  shows "ilog2 q = e"
proof -
  have q: "0 < q" using assms(1) powi2_pos[of e] by linarith
  note I = ilog2_bounds[OF q]
  have "2 powi e < (2::rat) powi (ilog2 q + 1)" using assms(1) I(2) by linarith
  moreover have "2 powi ilog2 q < (2::rat) powi (e + 1)" using assms(2) I(1) by linarith
  ultimately show ?thesis by simp
qed

lemma round_even_of_int [simp]: "round_even (of_int m) = m"
  by (simp add: round_even_def)

lemma round_even_near:
  assumes "\<bar>x - of_int m\<bar> < 1 / 2"
  shows "round_even x = m"
proof (cases "of_int m \<le> x")
  case True
  then have "\<lfloor>x\<rfloor> = m" using assms by (intro floor_unique) (simp_all add: abs_less_iff)
  then show ?thesis using assms True by (simp add: round_even_def abs_less_iff)
next
  case False
  then have "\<lfloor>x\<rfloor> = m - 1" using assms by (intro floor_unique) (simp_all add: abs_less_iff)
  then show ?thesis using assms False by (simp add: round_even_def abs_less_iff)
qed

lemma round_even_tie: "round_even (of_int f + 1 / 2) = (if even f then f else f + 1)"
proof -
  have "\<lfloor>(of_int f + 1 / 2 :: rat)\<rfloor> = f" by (intro floor_unique) simp_all
  then show ?thesis by (simp add: round_even_def)
qed

lemma quantum_eq:
  assumes "2 powi e \<le> q" and "q < 2 powi (e + 1)"
  shows "quantum q = max (e - 52) (- 1074)"
  by (simp add: quantum_def ilog2_unique[OF assms])

lemma round_pos_eqI:
  assumes "2 powi e \<le> q" and "q < 2 powi (e + 1)"
    and "p = max (e - 52) (- 1074)"
    and "\<bar>q / 2 powi p - of_int m\<bar> < 1 / 2"
  shows "round_pos q = of_int m * 2 powi p"
  using assms(3,4) by (simp add: round_pos_def quantum_eq[OF assms(1,2)] round_even_near)

lemma round_pos_exact:
  assumes m: "0 < m" "m < 2 ^ 53" and p: "- 1074 \<le> p"
  shows "round_pos (of_int m * 2 powi p) = of_int m * 2 powi p"
proof -
  define q :: rat where "q = of_int m * 2 powi p"
  have q: "0 < q" using m by (simp add: q_def)
  have "(of_int m :: rat) < of_int (2 ^ 53)" using m(2) by (simp only: of_int_less_iff)
  then have "q < 2 powi 53 * 2 powi p" by (simp add: q_def)
  then have "q < 2 powi (53 + p)" by (simp add: powi2_add)
  with ilog2_bounds(1)[OF q] have "2 powi ilog2 q < (2::rat) powi (53 + p)" by linarith
  then have "ilog2 q - 52 \<le> p" by simp
  then have qp: "quantum q \<le> p" using p by (simp add: quantum_def)
  define k where "k = nat (p - quantum q)"
  define d :: rat where "d = 2 powi quantum q"
  have d: "0 < d" by (simp add: d_def)
  have "p = quantum q + int k" using qp by (simp add: k_def)
  then have pd: "2 powi p = d * 2 ^ k"
    by (simp add: powi2_add d_def)
  have qd: "q = of_int (m * 2 ^ k) * d"
    by (subst q_def, subst pd) simp
  have "q / d = of_int (m * 2 ^ k)"
    by (subst qd) (use d in simp)
  then have "round_pos q = of_int (m * 2 ^ k) * d"
    unfolding round_pos_def d_def by (simp only: round_even_of_int)
  also have "\<dots> = q" by (rule qd[symmetric])
  finally show ?thesis by (simp add: q_def)
qed

lemma round53_exact:
  assumes m: "0 < m" "m < 2 ^ 53" and p: "- 1074 \<le> p" "p \<le> 971"
  shows "round53 (of_int m * 2 powi p) = Fin (of_int m * 2 powi p)"
proof -
  have "(of_int m :: rat) < of_int (2 ^ 53)" using m(2) by (simp only: of_int_less_iff)
  then have "of_int m * 2 powi p < 2 powi 53 * (2::rat) powi p" by simp
  also have "\<dots> = 2 powi (53 + p)" by (simp add: powi2_add)
  also have "\<dots> \<le> 2 powi 1024" using p(2) by (intro powi2_mono) simp
  finally have "of_int m * 2 powi p < (2::rat) ^ 1024" by simp
  moreover have "0 < of_int m * (2::rat) powi p" using m by simp
  ultimately show ?thesis using round_pos_exact[OF m p(1)] by (simp add: round53_def)
qed

lemma round53_minus: "round53 (- q) = fneg (round53 q)"
  by (simp add: round53_def)

lemma round53_int:
  assumes "0 \<le> n" "n \<le> 2 ^ 53"
  shows "round53 (of_int n) = Fin (of_int n)"
proof -
  consider "n = 0" | "0 < n" "n < 2 ^ 53" | "n = 2 ^ 53" using assms by force
  then show ?thesis
  proof cases
    case 1 then show ?thesis by (simp add: round53_def)
  next
    case 2 then show ?thesis using round53_exact[of n 0] by simp
  next
    case 3 then show ?thesis using round53_exact[of "2 ^ 52" 1] by simp
  qed
qed

lemma round53_1: "round53 1 = Fin 1"
  using round53_int[of 1] by simp

lemma round53_eqI:
  assumes "2 powi e \<le> q" and "q < 2 powi (e + 1)"
    and "p = max (e - 52) (- 1074)"
    and "\<bar>q / 2 powi p - of_int m\<bar> < 1 / 2"
    and "(of_int m :: rat) * 2 powi p < 2 ^ 1024"
  shows "round53 q = Fin (of_int m * 2 powi p)"
proof -
  have q: "0 < q" using assms(1) powi2_pos[of e] by linarith
  show ?thesis using q assms(5) round_pos_eqI[OF assms(1-4)] by (simp add: round53_def)
qed

lemma round53_tieI:
  assumes "2 powi e \<le> q" and "q < 2 powi (e + 1)"
    and "p = max (e - 52) (- 1074)"
    and "q / 2 powi p = of_int f + 1 / 2" and "g = (if even f then f else f + 1)"
    and "(of_int g :: rat) * 2 powi p < 2 ^ 1024"
  shows "round53 q = Fin (of_int g * 2 powi p)"
proof -
  have q: "0 < q" using assms(1) powi2_pos[of e] by linarith
  have "round_pos q = of_int g * 2 powi p"
    using assms(3,4,5) by (simp add: round_pos_def quantum_eq[OF assms(1,2)] round_even_tie)
  then show ?thesis using q assms(6) by (simp add: round53_def)
qed

lemma fadd_count:
  assumes "0 \<le> n" "n < 2 ^ 53"
  shows "fadd (Fin (of_int n)) (Fin 1) = Fin (of_int n + 1)"
  using round53_int[of "n + 1"] assms by simp

lemma fadd_one_one: "fadd (Fin 1) (Fin 1) = Fin 2"
  using fadd_count[of 1] by simp

lemma is_double_examples: "is_double (5 / 2)" "is_double 10" "is_double 3" "is_double 4"
  using round53_exact[of 5 "- 1"] round53_int[of 10] round53_int[of 3] round53_int[of 4]
  by (simp_all add: is_double_def power_int_minus)

lemma is_double_round_pos:
  assumes "0 < x" and "is_double x"
  shows "of_int (round_even (x / 2 powi quantum x)) * 2 powi quantum x = x"
  using assms by (auto simp: is_double_def round53_def round_pos_def split: if_splits)

text \<open>The numbers that the decimal literals of the examples denote.\<close>

lemma lit_9_9: "lit (99 / 10) = Fin (5573204538870989 / 2 ^ 49)"
  unfolding lit_def using round53_eqI[where q = "99 / 10" and e = 3 and p = "- 49" and m = 5573204538870989]
  by (simp add: power_int_minus)

lemma lit_0_5: "lit (1 / 2) = Fin (1 / 2)"
  unfolding lit_def using round53_exact[of 1 "- 1"] by (simp add: power_int_minus)

lemma lit_20_3: "lit (203 / 10) = Fin (5713942027226317 / 2 ^ 48)"
  unfolding lit_def using round53_eqI[where q = "203 / 10" and e = 4 and p = "- 48" and m = 5713942027226317]
  by (simp add: power_int_minus)

lemma lit_0_1: "lit (1 / 10) = Fin (3602879701896397 / 2 ^ 55)"
  unfolding lit_def using round53_eqI[where q = "1 / 10" and e = "- 4" and p = "- 56" and m = 7205759403792794]
  by (simp add: power_int_minus)

lemma lit_0_2: "lit (2 / 10) = Fin (3602879701896397 / 2 ^ 54)"
  unfolding lit_def using round53_eqI[where q = "2 / 10" and e = "- 3" and p = "- 55" and m = 7205759403792794]
  by (simp add: power_int_minus)

lemma lit_0_3: "lit (3 / 10) = Fin (5404319552844595 / 2 ^ 54)"
  unfolding lit_def using round53_eqI[where q = "3 / 10" and e = "- 2" and p = "- 54" and m = 5404319552844595]
  by (simp add: power_int_minus)

section \<open>The cart total\<close>

lemma price_priced: "price (priced q) = lit q"
  by (simp add: priced_def)

lemma totalAmount_Nil: "totalAmount [] = Fin 0"
  by (simp add: totalAmount_def)

lemma totalAmount_snoc:
  "totalAmount (c @ [l]) = fadd (totalAmount c) (fmul (price (product l)) (quantity l))"
  by (simp add: totalAmount_def)

lemma total_20_3:
  "totalAmount [\<lparr>product = priced (99 / 10), quantity = Fin 2\<rparr>,
                \<lparr>product = priced (1 / 2), quantity = Fin 1\<rparr>] = lit (203 / 10)"
proof -
  have r1: "round53 (5573204538870989 / 2 ^ 48) = Fin (5573204538870989 / 2 ^ 48)"
    using round53_exact[of 5573204538870989 "- 48"] by (simp add: power_int_minus)
  have r2: "round53 (1 / 2) = Fin (1 / 2)"
    using round53_exact[of 1 "- 1"] by (simp add: power_int_minus)
  have r3: "round53 (5713942027226317 / 2 ^ 48) = Fin (5713942027226317 / 2 ^ 48)"
    using round53_exact[of 5713942027226317 "- 48"] by (simp add: power_int_minus)
  have a: "fmul (lit (99 / 10)) (Fin 2) = Fin (5573204538870989 / 2 ^ 48)"
    using r1 by (simp add: lit_9_9)
  have b: "fadd (Fin 0) (Fin (5573204538870989 / 2 ^ 48)) = Fin (5573204538870989 / 2 ^ 48)"
    using r1 by simp
  have c: "fmul (lit (1 / 2)) (Fin 1) = Fin (1 / 2)"
    using r2 by (simp add: lit_0_5)
  have d: "fadd (Fin (5573204538870989 / 2 ^ 48)) (Fin (1 / 2)) = Fin (5713942027226317 / 2 ^ 48)"
    using r3 by simp
  show ?thesis
    by (simp only: totalAmount_def foldl.simps price_priced CartLine.simps a b c d lit_20_3)
qed

lemma total_0_3:
  "totalAmount [\<lparr>product = priced (1 / 10), quantity = Fin 1\<rparr>,
                \<lparr>product = priced (2 / 10), quantity = Fin 1\<rparr>] = Fin (5404319552844596 / 2 ^ 54)"
proof -
  have r1: "round53 (3602879701896397 / 2 ^ 55) = Fin (3602879701896397 / 2 ^ 55)"
    using round53_exact[of 3602879701896397 "- 55"] by (simp add: power_int_minus)
  have r2: "round53 (3602879701896397 / 2 ^ 54) = Fin (3602879701896397 / 2 ^ 54)"
    using round53_exact[of 3602879701896397 "- 54"] by (simp add: power_int_minus)
  have r3: "round53 (10808639105689191 / 2 ^ 55) = Fin (5404319552844596 / 2 ^ 54)"
    using round53_tieI[where q = "10808639105689191 / 2 ^ 55" and e = "- 2" and p = "- 54"
        and f = 5404319552844595 and g = 5404319552844596]
    by (simp add: power_int_minus)
  have a: "fmul (lit (1 / 10)) (Fin 1) = Fin (3602879701896397 / 2 ^ 55)"
    using r1 by (simp add: lit_0_1)
  have b: "fadd (Fin 0) (Fin (3602879701896397 / 2 ^ 55)) = Fin (3602879701896397 / 2 ^ 55)"
    using r1 by simp
  have c: "fmul (lit (2 / 10)) (Fin 1) = Fin (3602879701896397 / 2 ^ 54)"
    using r2 lit_0_2 by simp
  have d: "fadd (Fin (3602879701896397 / 2 ^ 55)) (Fin (3602879701896397 / 2 ^ 54)) =
      Fin (5404319552844596 / 2 ^ 54)"
    using r3 by simp
  show ?thesis
    by (simp only: totalAmount_def foldl.simps price_priced CartLine.simps a b c d)
qed

text \<open>
  Claim C2, as stated, fails: the total is not computed in exact arithmetic. For the
  lines (0.1, 1) and (0.2, 1) it is not the number 0.3.
\<close>

lemma total_0_3_not_exact:
  "totalAmount [\<lparr>product = priced (1 / 10), quantity = Fin 1\<rparr>,
                \<lparr>product = priced (2 / 10), quantity = Fin 1\<rparr>] \<noteq> lit (3 / 10)"
  unfolding total_0_3 lit_0_3 by simp

text \<open>
  Claim C2, amended. The total of the empty cart is 0, the total of the lines (9.9, 2)
  and (0.5, 1) is the number 20.3, and the total is the sum from left to right in
  binary64: every product and every partial sum is rounded to the nearest number.
\<close>

theorem total_is_rounded_sum:
  "totalAmount [] = Fin 0 \<and>
   totalAmount [\<lparr>product = priced (99 / 10), quantity = Fin 2\<rparr>,
                \<lparr>product = priced (1 / 2), quantity = Fin 1\<rparr>] = lit (203 / 10) \<and>
   totalAmount (c @ [l]) = fadd (totalAmount c) (fmul (price (product l)) (quantity l))"
  by (simp only: totalAmount_Nil total_20_3 totalAmount_snoc)

section \<open>Properties of the catalog\<close>

lemma updateProduct_unknown: "idP u \<notin> idP ` set ps \<Longrightarrow> updateProduct u ps = ps"
  unfolding updateProduct_def by (induction ps) auto

lemma deleteProduct_unknown: "i \<notin> idP ` set ps \<Longrightarrow> deleteProduct i ps = ps"
  unfolding deleteProduct_def by (induction ps) auto

text \<open>
  Claim C7. An update with a product whose id matches no entry of the catalog, and a
  delete of an id that no entry has, leave the catalog as it was. Both operations are
  total functions to a catalog: there is no error to signal.
\<close>

theorem unknown_id_is_noop:
  "(idP u \<notin> idP ` set ps \<longrightarrow> updateProduct u ps = ps) \<and>
   (i \<notin> idP ` set ps \<longrightarrow> deleteProduct i ps = ps)"
  by (simp add: updateProduct_unknown deleteProduct_unknown)

theorem unknown_id_is_noop_witness:
  "updateProduct soda [cola] = [cola] \<and> deleteProduct (ustr ''p2'') [cola] = [cola]"
  using unknown_id_is_noop[of soda "[cola]" "ustr ''p2''"]
  by (simp add: cola_def soda_def ustr_def)

lemma added_ids_append: "added_ids (xs @ ys) = added_ids xs @ added_ids ys"
  by (induction xs rule: added_ids.induct) simp_all

lemma run_ops_snoc: "run_ops (ops @ [x]) = apply_op (run_ops ops) x"
  by (simp add: run_ops_def)

lemma run_ops_Nil: "run_ops [] = []"
  by (simp add: run_ops_def)

lemma ids_addProduct: "map idP (addProduct p ps) = map idP ps @ [idP p]"
  by (simp add: addProduct_def)

lemma ids_updateProduct: "map idP (updateProduct u ps) = map idP ps"
  by (simp add: updateProduct_def)

lemma ids_deleteProduct: "map idP (deleteProduct i ps) = filter (\<lambda>j. j \<noteq> i) (map idP ps)"
  by (simp add: deleteProduct_def filter_map comp_def)

lemma ids_subset_added: "set (map idP (run_ops ops)) \<subseteq> set (added_ids ops)"
proof (induction ops rule: rev_induct)
  case Nil show ?case by (simp add: run_ops_Nil)
next
  case (snoc x ops)
  then show ?case
    by (cases x) (auto simp: run_ops_snoc ids_addProduct ids_updateProduct ids_deleteProduct added_ids_append simp del: set_map)
qed

lemma ids_distinct:
  "distinct (added_ids ops) \<Longrightarrow> distinct (map idP (run_ops ops))"
proof (induction ops rule: rev_induct)
  case Nil show ?case by (simp add: run_ops_Nil)
next
  case (snoc x ops)
  then have d: "distinct (map idP (run_ops ops))" by (simp add: added_ids_append)
  show ?case
  proof (cases x)
    case (Add p)
    then have "idP p \<notin> set (added_ids ops)" using snoc.prems by (simp add: added_ids_append)
    then have "idP p \<notin> set (map idP (run_ops ops))" using ids_subset_added[of ops] by blast
    then show ?thesis using d Add by (simp add: run_ops_snoc ids_addProduct ids_updateProduct ids_deleteProduct del: set_map)
  next
    case (Update u) then show ?thesis using d by (simp add: run_ops_snoc ids_addProduct ids_updateProduct ids_deleteProduct)
  next
    case (Delete i) then show ?thesis using d by (simp add: run_ops_snoc ids_addProduct ids_updateProduct ids_deleteProduct)
  qed
qed

lemma ids_filter_added:
  "distinct (added_ids ops) \<Longrightarrow>
   map idP (run_ops ops) = filter (\<lambda>i. i \<in> idP ` set (run_ops ops)) (added_ids ops)"
proof (induction ops rule: rev_induct)
  case Nil show ?case by (simp add: run_ops_Nil)
next
  case (snoc x ops)
  then have IH: "map idP (run_ops ops) = filter (\<lambda>i. i \<in> idP ` set (run_ops ops)) (added_ids ops)"
    by (simp add: added_ids_append)
  show ?case
  proof (cases x)
    case (Add p)
    then have fresh: "idP p \<notin> set (added_ids ops)" using snoc.prems by (simp add: added_ids_append)
    have "filter (\<lambda>i. i = idP p \<or> i \<in> idP ` set (run_ops ops)) (added_ids ops) =
          filter (\<lambda>i. i \<in> idP ` set (run_ops ops)) (added_ids ops)"
      using fresh by (intro filter_cong) auto
    then show ?thesis using Add IH
      by (simp add: run_ops_snoc addProduct_def added_ids_append)
  next
    case (Update u)
    have "idP ` set (updateProduct u (run_ops ops)) = idP ` set (run_ops ops)"
      using ids_updateProduct[of u "run_ops ops"] by (metis set_map)
    then show ?thesis using Update IH
      by (simp add: run_ops_snoc ids_updateProduct added_ids_append)
  next
    case (Delete i)
    have "filter (\<lambda>j. j \<in> idP ` set (deleteProduct i (run_ops ops))) (added_ids ops) =
          filter (\<lambda>j. j \<noteq> i) (filter (\<lambda>j. j \<in> idP ` set (run_ops ops)) (added_ids ops))"
      by (auto simp: deleteProduct_def intro!: filter_cong)
    then show ?thesis using Delete IH
      by (simp add: run_ops_snoc ids_deleteProduct added_ids_append)
  qed
qed

lemma snoc_eq_decomp:
  "ops @ [x] = pre @ w # post \<longleftrightarrow>
     (post = [] \<and> pre = ops \<and> x = w) \<or> (\<exists>post'. post = post' @ [x] \<and> ops = pre @ w # post')"
  by (cases post rule: rev_cases) auto

lemma live_ids_Nil: "live_ids [] = {}"
  by (simp add: live_ids_def)

lemma live_ids_snoc_iff:
  "i \<in> live_ids (ops @ [x]) \<longleftrightarrow> (\<exists>p. x = Add p \<and> idP p = i) \<or> (i \<in> live_ids ops \<and> x \<noteq> Delete i)"
proof
  assume "i \<in> live_ids (ops @ [x])"
  then obtain pre p post where d: "ops @ [x] = pre @ Add p # post" "idP p = i" "Delete i \<notin> set post"
    by (auto simp: live_ids_def)
  from d(1) consider "post = []" "pre = ops" "x = Add p"
    | post' where "post = post' @ [x]" "ops = pre @ Add p # post'"
    unfolding snoc_eq_decomp by blast
  then show "(\<exists>p. x = Add p \<and> idP p = i) \<or> (i \<in> live_ids ops \<and> x \<noteq> Delete i)"
  proof cases
    case 1 then show ?thesis using d(2) by simp
  next
    case 2
    then have "i \<in> live_ids ops" using d(2,3) unfolding live_ids_def by auto
    moreover have "x \<noteq> Delete i" using 2(1) d(3) by auto
    ultimately show ?thesis by simp
  qed
next
  assume "(\<exists>p. x = Add p \<and> idP p = i) \<or> (i \<in> live_ids ops \<and> x \<noteq> Delete i)"
  then show "i \<in> live_ids (ops @ [x])"
  proof
    assume "\<exists>p. x = Add p \<and> idP p = i"
    then obtain p where "x = Add p" "idP p = i" by blast
    then have "ops @ [x] = ops @ Add p # [] \<and> idP p = i \<and> Delete i \<notin> set []" by simp
    then show ?thesis unfolding live_ids_def by blast
  next
    assume a: "i \<in> live_ids ops \<and> x \<noteq> Delete i"
    then obtain pre p post where d: "ops = pre @ Add p # post" "idP p = i" "Delete i \<notin> set post"
      by (auto simp: live_ids_def)
    then have "ops @ [x] = pre @ Add p # (post @ [x]) \<and> idP p = i \<and> Delete i \<notin> set (post @ [x])"
      using a by auto
    then show ?thesis unfolding live_ids_def by blast
  qed
qed

lemma latest_write_snoc:
  "latest_write (ops @ [x]) p \<longleftrightarrow>
     x = Add p \<or> x = Update p \<or>
     (latest_write ops p \<and> (\<forall>q. idP q = idP p \<longrightarrow> x \<noteq> Add q \<and> x \<noteq> Update q))"
proof
  assume "latest_write (ops @ [x]) p"
  then obtain pre w post where d: "ops @ [x] = pre @ w # post" "w = Add p \<or> w = Update p"
     "\<forall>q. idP q = idP p \<longrightarrow> Add q \<notin> set post \<and> Update q \<notin> set post"
    unfolding latest_write_def by blast
  from d(1) consider "post = []" "pre = ops" "x = w"
    | post' where "post = post' @ [x]" "ops = pre @ w # post'"
    unfolding snoc_eq_decomp by blast
  then show "x = Add p \<or> x = Update p \<or>
     (latest_write ops p \<and> (\<forall>q. idP q = idP p \<longrightarrow> x \<noteq> Add q \<and> x \<noteq> Update q))"
  proof cases
    case 1 then show ?thesis using d(2) by blast
  next
    case 2
    have "latest_write ops p" unfolding latest_write_def using 2 d(2,3) by auto
    moreover have "\<forall>q. idP q = idP p \<longrightarrow> x \<noteq> Add q \<and> x \<noteq> Update q" using 2(1) d(3) by auto
    ultimately show ?thesis by simp
  qed
next
  assume a: "x = Add p \<or> x = Update p \<or>
     (latest_write ops p \<and> (\<forall>q. idP q = idP p \<longrightarrow> x \<noteq> Add q \<and> x \<noteq> Update q))"
  show "latest_write (ops @ [x]) p"
  proof (cases "x = Add p \<or> x = Update p")
    case True
    then have "ops @ [x] = ops @ x # [] \<and> (x = Add p \<or> x = Update p) \<and>
        (\<forall>q. idP q = idP p \<longrightarrow> Add q \<notin> set [] \<and> Update q \<notin> set [])" by simp
    then show ?thesis unfolding latest_write_def by blast
  next
    case False
    then have l: "latest_write ops p" and n: "\<forall>q. idP q = idP p \<longrightarrow> x \<noteq> Add q \<and> x \<noteq> Update q"
      using a by auto
    from l obtain pre w post where d: "ops = pre @ w # post" "w = Add p \<or> w = Update p"
     "\<forall>q. idP q = idP p \<longrightarrow> Add q \<notin> set post \<and> Update q \<notin> set post"
      unfolding latest_write_def by blast
    then have "ops @ [x] = pre @ w # (post @ [x]) \<and> (w = Add p \<or> w = Update p) \<and>
        (\<forall>q. idP q = idP p \<longrightarrow> Add q \<notin> set (post @ [x]) \<and> Update q \<notin> set (post @ [x]))"
      using n by auto
    then show ?thesis unfolding latest_write_def by blast
  qed
qed

lemma set_addProduct: "set (addProduct p ps) = insert p (set ps)"
  by (simp add: addProduct_def)

lemma set_updateProduct:
  "set (updateProduct u ps) =
     (if idP u \<in> idP ` set ps then insert u {p \<in> set ps. idP p \<noteq> idP u} else set ps)"
  unfolding updateProduct_def by (induction ps) auto

lemma set_deleteProduct: "set (deleteProduct i ps) = {p \<in> set ps. idP p \<noteq> i}"
  by (auto simp: deleteProduct_def)

lemma run_ops_live: "idP ` set (run_ops ops) = live_ids ops"
proof (induction ops rule: rev_induct)
  case Nil show ?case by (simp add: run_ops_Nil live_ids_Nil)
next
  case (snoc x ops)
  show ?case
  proof (cases x)
    case (Add p)
    then show ?thesis using snoc
      by (auto simp: run_ops_snoc set_addProduct live_ids_snoc_iff)
  next
    case (Update u)
    have "idP ` set (updateProduct u (run_ops ops)) = idP ` set (run_ops ops)"
      using ids_updateProduct[of u "run_ops ops"] by (metis set_map)
    then show ?thesis using snoc Update
      by (auto simp: run_ops_snoc live_ids_snoc_iff)
  next
    case (Delete i)
    have "idP ` {p \<in> set (run_ops ops). idP p \<noteq> i} = idP ` set (run_ops ops) - {i}"
      by auto
    then show ?thesis using snoc Delete
      by (auto simp: run_ops_snoc set_deleteProduct live_ids_snoc_iff)
  qed
qed

lemma run_ops_latest:
  "distinct (added_ids ops) \<Longrightarrow> p \<in> set (run_ops ops) \<Longrightarrow> latest_write ops p"
proof (induction ops arbitrary: p rule: rev_induct)
  case Nil then show ?case by (simp add: run_ops_Nil)
next
  case (snoc x ops)
  have d: "distinct (added_ids ops)" using snoc.prems(1) by (simp add: added_ids_append)
  note IH = snoc.IH[OF d]
  show ?case
  proof (cases x)
    case (Add a)
    have fresh: "idP a \<notin> set (added_ids ops)" using snoc.prems(1) Add by (simp add: added_ids_append)
    show ?thesis
    proof (cases "p = a")
      case True then show ?thesis using Add by (simp add: latest_write_snoc)
    next
      case False
      then have p: "p \<in> set (run_ops ops)" using snoc.prems(2) Add by (simp add: run_ops_snoc set_addProduct)
      then have "idP p \<in> set (added_ids ops)" using ids_subset_added[of ops] by auto
      then have "idP a \<noteq> idP p" using fresh by auto
      then show ?thesis using IH[OF p] Add by (auto simp: latest_write_snoc)
    qed
  next
    case (Update u)
    show ?thesis
    proof (cases "p = u")
      case True then show ?thesis using Update by (simp add: latest_write_snoc)
    next
      case False
      have "p \<in> set (updateProduct u (run_ops ops))"
        using snoc.prems(2) Update by (simp add: run_ops_snoc)
      then have "p \<in> set (run_ops ops) \<and> idP p \<noteq> idP u"
      proof (cases "idP u \<in> idP ` set (run_ops ops)")
        case True
        then show ?thesis using \<open>p \<in> set (updateProduct u (run_ops ops))\<close> False
          by (simp add: set_updateProduct)
      next
        case F: False
        then have "p \<in> set (run_ops ops)"
          using \<open>p \<in> set (updateProduct u (run_ops ops))\<close> by (simp add: set_updateProduct)
        then show ?thesis using F by (metis imageI)
      qed
      then show ?thesis using IH[of p] Update by (auto simp: latest_write_snoc)
    qed
  next
    case (Delete i)
    then have "p \<in> set (run_ops ops)" using snoc.prems(2) by (simp add: run_ops_snoc set_deleteProduct)
    then show ?thesis using IH[of p] Delete by (auto simp: latest_write_snoc)
  qed
qed

lemma run_history: "run_ops history = [cola2]"
  by (simp add: history_def run_ops_def addProduct_def updateProduct_def deleteProduct_def
      cola_def cola2_def soda_def ustr_def)

lemma added_history: "added_ids history = [ustr ''p1'', ustr ''p2'']"
  by (simp add: history_def cola_def soda_def)

text \<open>
  Claim C3. After any run of add, update and delete operations from the empty catalog
  in which every add brings an id that no earlier add brought, the catalog has no two
  entries with one id, its ids are those added and not deleted afterwards, and every
  entry is the product of the most recent add or update of its id.
\<close>

theorem catalog_one_entry_per_live_id:
  assumes "distinct (added_ids ops)"
  shows "distinct (map idP (run_ops ops)) \<and>
         idP ` set (run_ops ops) = live_ids ops \<and>
         (\<forall>p \<in> set (run_ops ops). latest_write ops p)"
  using assms ids_distinct run_ops_live run_ops_latest by blast

theorem catalog_one_entry_per_live_id_witness:
  "distinct (added_ids history) \<and> run_ops history = [cola2] \<and>
   distinct (map idP (run_ops history)) \<and> live_ids history = {ustr ''p1''} \<and>
   latest_write history cola2"
proof -
  have d: "distinct (added_ids history)" by (simp add: added_history ustr_def)
  have "idP cola2 = ustr ''p1''" by (simp add: cola2_def cola_def)
  then show ?thesis
    using d catalog_one_entry_per_live_id[OF d] by (simp add: run_history)
qed

lemma find_None_iff: "find P xs = None \<longleftrightarrow> (\<forall>x \<in> set xs. \<not> P x)"
  by (induction xs) auto

lemma find_Some_first:
  "find P xs = Some x \<Longrightarrow> \<exists>pre post. xs = pre @ x # post \<and> P x \<and> (\<forall>y \<in> set pre. \<not> P y)"
proof (induction xs)
  case Nil then show ?case by simp
next
  case (Cons a xs)
  show ?case
  proof (cases "P a")
    case True
    then have "a # xs = [] @ x # xs \<and> P x \<and> (\<forall>y \<in> set []. \<not> P y)" using Cons.prems by simp
    then show ?thesis by blast
  next
    case False
    then obtain pre post where "xs = pre @ x # post" "P x" "\<forall>y \<in> set pre. \<not> P y"
      using Cons by auto
    then have "a # xs = (a # pre) @ x # post \<and> P x \<and> (\<forall>y \<in> set (a # pre). \<not> P y)"
      using False by simp
    then show ?thesis by blast
  qed
qed

lemma find_Some_holds: "find P xs = Some x \<Longrightarrow> P x"
  by (induction xs) (auto split: if_splits)

lemma split_at_first:
  "x \<notin> set xs \<Longrightarrow> x \<notin> set xs' \<Longrightarrow> xs @ x # ys = xs' @ x # ys' \<Longrightarrow> xs = xs'"
proof (induction xs arbitrary: xs')
  case Nil then show ?case by (cases xs') auto
next
  case (Cons a xs) then show ?case by (cases xs') auto
qed

lemma first_added_wins:
  assumes d: "distinct (added_ids ops)"
    and f: "findByBarcode b (run_ops ops) = Some p"
    and q: "q \<in> set (run_ops ops)" "barcode q = b"
  shows "idP q \<notin> set (takeWhile (\<lambda>i. i \<noteq> idP p) (added_ids ops))"
proof
  assume a: "idP q \<in> set (takeWhile (\<lambda>i. i \<noteq> idP p) (added_ids ops))"
  let ?ps = "run_ops ops"
  let ?L = "\<lambda>i. i \<in> idP ` set ?ps"
  obtain pre post where ps: "?ps = pre @ p # post" and pre: "\<forall>y \<in> set pre. barcode y \<noteq> b"
    using find_Some_first[OF f[unfolded findByBarcode_def]] by blast
  have dist: "distinct (map idP ?ps)" using ids_distinct[OF d] .
  have pin: "idP p \<in> set (added_ids ops)" using ids_subset_added[of ops] ps by auto
  then obtain xs ys where ad: "added_ids ops = xs @ idP p # ys" and nx: "idP p \<notin> set xs"
    by (meson split_list_first)
  have tw: "takeWhile (\<lambda>i. i \<noteq> idP p) (added_ids ops) = xs"
    unfolding ad using nx by (subst takeWhile_append2) auto
  have "map idP ?ps = filter ?L (added_ids ops)" using ids_filter_added[OF d] .
  then have eq: "map idP pre @ idP p # map idP post = filter ?L xs @ idP p # filter ?L ys"
    unfolding ad using ps by auto
  have np: "idP p \<notin> set (map idP pre)" using dist unfolding ps by auto
  have "map idP pre = filter ?L xs"
  proof -
    have nf: "idP p \<notin> set (filter ?L xs)" using nx by simp
    show ?thesis by (rule split_at_first[OF np nf eq])
  qed
  moreover have "idP q \<in> set (filter ?L xs)" using a q(1) unfolding tw by simp
  ultimately have "idP q \<in> set (map idP pre)" by simp
  then obtain r where r: "r \<in> set pre" "idP r = idP q" by auto
  have "inj_on idP (set ?ps)" using dist by (simp add: distinct_map)
  moreover have "r \<in> set ?ps" using r(1) ps by simp
  ultimately have "r = q" using q(1) r(2) by (auto dest: inj_onD)
  then show False using pre r(1) q(2) by auto
qed

text \<open>
  Claim C4. \<open>findByBarcode\<close> answers \<open>None\<close> exactly when no product of the catalog
  has the barcode, and otherwise the first product in the order of the catalog that has
  it. \<open>addProduct\<close> appends, \<open>updateProduct\<close> and \<open>deleteProduct\<close> keep the order of the
  ids, so that after a run of operations with fresh ids no product with the barcode was
  added before the one returned.
\<close>

theorem findByBarcode_first_match:
  "(findByBarcode b ps = None \<longleftrightarrow> (\<forall>p \<in> set ps. barcode p \<noteq> b)) \<and>
   (findByBarcode b ps = Some p \<longrightarrow>
      (\<exists>pre post. ps = pre @ p # post \<and> barcode p = b \<and> (\<forall>q \<in> set pre. barcode q \<noteq> b))) \<and>
   addProduct a ps = ps @ [a] \<and>
   map idP (updateProduct u ps) = map idP ps \<and>
   map idP (deleteProduct i ps) = filter (\<lambda>j. j \<noteq> i) (map idP ps) \<and>
   (distinct (added_ids ops) \<longrightarrow> findByBarcode b (run_ops ops) = Some r \<longrightarrow>
      (\<forall>q \<in> set (run_ops ops). barcode q = b \<longrightarrow>
         idP q \<notin> set (takeWhile (\<lambda>i. i \<noteq> idP r) (added_ids ops))))"
proof -
  have 1: "findByBarcode b ps = None \<longleftrightarrow> (\<forall>p \<in> set ps. barcode p \<noteq> b)"
    unfolding findByBarcode_def by (rule find_None_iff)
  have 2: "findByBarcode b ps = Some p \<longrightarrow>
      (\<exists>pre post. ps = pre @ p # post \<and> barcode p = b \<and> (\<forall>q \<in> set pre. barcode q \<noteq> b))"
    unfolding findByBarcode_def using find_Some_first[of "\<lambda>p. barcode p = b" ps p] by blast
  have 3: "addProduct a ps = ps @ [a]" by (simp add: addProduct_def)
  have 6: "distinct (added_ids ops) \<longrightarrow> findByBarcode b (run_ops ops) = Some r \<longrightarrow>
      (\<forall>q \<in> set (run_ops ops). barcode q = b \<longrightarrow>
         idP q \<notin> set (takeWhile (\<lambda>i. i \<noteq> idP r) (added_ids ops)))"
    using first_added_wins[of ops b r] by blast
  show ?thesis using 1 2 3 ids_updateProduct[of u ps] ids_deleteProduct[of i ps] 6
    by (intro conjI)
qed

theorem findByBarcode_first_match_witness:
  "distinct (added_ids [Add cola, Add soda]) \<and>
   findByBarcode (ustr ''6901'') (run_ops [Add cola, Add soda]) = Some cola \<and>
   findByBarcode (ustr ''777'') (run_ops [Add cola, Add soda]) = None \<and>
   barcode soda = ustr ''6901'' \<and>
   idP soda \<notin> set (takeWhile (\<lambda>i. i \<noteq> idP cola) (added_ids [Add cola, Add soda]))"
proof -
  have r: "run_ops [Add cola, Add soda] = [cola, soda]"
    by (simp add: run_ops_def addProduct_def)
  have d: "distinct (added_ids [Add cola, Add soda])"
    by (simp add: cola_def soda_def ustr_def)
  have f: "findByBarcode (ustr ''6901'') (run_ops [Add cola, Add soda]) = Some cola"
    unfolding r by (simp add: findByBarcode_def cola_def)
  have n: "findByBarcode (ustr ''777'') (run_ops [Add cola, Add soda]) = None"
    using findByBarcode_first_match[of "ustr ''777''" "run_ops [Add cola, Add soda]"]
    unfolding r by (simp add: cola_def soda_def ustr_def)
  have b: "barcode soda = ustr ''6901''" by (simp add: soda_def)
  have "soda \<in> set (run_ops [Add cola, Add soda])" by (simp add: r)
  then show ?thesis
    using findByBarcode_first_match[of "ustr ''6901''" "run_ops [Add cola, Add soda]" cola
        undefined undefined undefined "[Add cola, Add soda]" cola] d f n b
    by blast
qed

section \<open>Properties of the checkout\<close>

lemma addToCart_existing:
  "\<exists>l \<in> set c. barcode (product l) = b \<Longrightarrow>
   addToCart p b c = map (\<lambda>l. if barcode (product l) = b
                               then l\<lparr>quantity := fadd (quantity l) (Fin 1)\<rparr> else l) c"
proof -
  assume "\<exists>l \<in> set c. barcode (product l) = b"
  then have "find (\<lambda>item. barcode (product item) = b) c \<noteq> None"
    by (simp add: find_None_iff)
  then show ?thesis by (auto simp: addToCart_def)
qed

lemma addToCart_new:
  "\<forall>l \<in> set c. barcode (product l) \<noteq> b \<Longrightarrow>
   addToCart p b c = c @ [\<lparr>product = p, quantity = Fin 1\<rparr>]"
proof -
  assume "\<forall>l \<in> set c. barcode (product l) \<noteq> b"
  then have "find (\<lambda>item. barcode (product item) = b) c = None"
    by (simp add: find_None_iff)
  then show ?thesis by (simp add: addToCart_def)
qed

lemma findByBarcode_barcode: "findByBarcode b ps = Some p \<Longrightarrow> barcode p = b"
  unfolding findByBarcode_def using find_Some_first[of "\<lambda>p. barcode p = b" ps p] by blast

lemma handleScan_found:
  "findByBarcode b (products st) = Some p \<Longrightarrow>
   cart (handleScan b st) = addToCart p b (cart st) \<and> products (handleScan b st) = products st"
  by (simp add: handleScan_def)

text \<open>
  Claim C5. When the scanned barcode resolves to a product: if the cart has a line whose
  product has the barcode, the scan adds 1 to the quantity of every such line and
  changes nothing else; if it has none, the scan appends a line of quantity 1, and a
  second scan of the barcode leaves exactly one line with it, of quantity 2. A cart
  with no two lines of one barcode stays so. The addition is that of \<open>number\<close>, which
  is exact on the whole quantities below \<open>2 ^ 53\<close>.
\<close>

theorem scan_merges_cart_lines:
  assumes "findByBarcode b (products st) = Some p"
  shows "((\<exists>l \<in> set (cart st). barcode (product l) = b) \<longrightarrow>
           cart (handleScan b st) =
             map (\<lambda>l. if barcode (product l) = b
                       then l\<lparr>quantity := fadd (quantity l) (Fin 1)\<rparr> else l) (cart st)) \<and>
         ((\<forall>l \<in> set (cart st). barcode (product l) \<noteq> b) \<longrightarrow>
           cart (handleScan b st) = cart st @ [\<lparr>product = p, quantity = Fin 1\<rparr>] \<and>
           filter (\<lambda>l. barcode (product l) = b) (cart (handleScan b (handleScan b st))) =
             [\<lparr>product = p, quantity = Fin 2\<rparr>]) \<and>
         (distinct (map (\<lambda>l. barcode (product l)) (cart st)) \<longrightarrow>
           distinct (map (\<lambda>l. barcode (product l)) (cart (handleScan b st)))) \<and>
         (0 \<le> n \<and> n < 2 ^ 53 \<longrightarrow> fadd (Fin (of_int n)) (Fin 1) = Fin (of_int n + 1))"
proof (intro conjI impI)
  assume "\<exists>l \<in> set (cart st). barcode (product l) = b"
  then show "cart (handleScan b st) =
             map (\<lambda>l. if barcode (product l) = b
                       then l\<lparr>quantity := fadd (quantity l) (Fin 1)\<rparr> else l) (cart st)"
    using handleScan_found[OF assms] by (simp add: addToCart_existing)
next
  assume n: "\<forall>l \<in> set (cart st). barcode (product l) \<noteq> b"
  then show 1: "cart (handleScan b st) = cart st @ [\<lparr>product = p, quantity = Fin 1\<rparr>]"
    using handleScan_found[OF assms] by (simp add: addToCart_new)
  have bp: "barcode p = b" using assms by (rule findByBarcode_barcode)
  have f: "findByBarcode b (products (handleScan b st)) = Some p"
    using handleScan_found[OF assms] assms by simp
  have ex: "\<exists>l \<in> set (cart (handleScan b st)). barcode (product l) = b"
    unfolding 1 using bp by simp
  have "cart (handleScan b (handleScan b st)) =
      map (\<lambda>l. if barcode (product l) = b
                then l\<lparr>quantity := fadd (quantity l) (Fin 1)\<rparr> else l) (cart (handleScan b st))"
    using handleScan_found[OF f] by (simp add: addToCart_existing[OF ex])
  also have "\<dots> = cart st @ [\<lparr>product = p, quantity = Fin 2\<rparr>]"
  proof -
    have "map (\<lambda>l. if barcode (product l) = b
                then l\<lparr>quantity := fadd (quantity l) (Fin 1)\<rparr> else l) (cart st) = cart st"
      using n by (intro map_idI) auto
    then show ?thesis unfolding 1 using bp round53_int[of 2] by simp
  qed
  finally show "filter (\<lambda>l. barcode (product l) = b) (cart (handleScan b (handleScan b st))) =
             [\<lparr>product = p, quantity = Fin 2\<rparr>]"
    using n bp by simp
next
  assume d: "distinct (map (\<lambda>l. barcode (product l)) (cart st))"
  have bp: "barcode p = b" using assms by (rule findByBarcode_barcode)
  show "distinct (map (\<lambda>l. barcode (product l)) (cart (handleScan b st)))"
  proof (cases "\<exists>l \<in> set (cart st). barcode (product l) = b")
    case True
    have "map (\<lambda>l. barcode (product l)) (addToCart p b (cart st)) =
        map (\<lambda>l. barcode (product l)) (cart st)"
      unfolding addToCart_existing[OF True] by (simp add: comp_def cong: if_cong)
    then show ?thesis using d handleScan_found[OF assms] by simp
  next
    case False
    then have n: "\<forall>l \<in> set (cart st). barcode (product l) \<noteq> b" by simp
    show ?thesis using d n bp handleScan_found[OF assms] by (auto simp: addToCart_new[OF n])
  qed
next
  assume "0 \<le> n \<and> n < 2 ^ 53"
  then show "fadd (Fin (of_int n)) (Fin 1) = Fin (of_int n + 1)" using fadd_count[of n] by simp
qed

theorem scan_merges_cart_lines_witness:
  "findByBarcode (ustr ''6901'') (products shop) = Some cola \<and>
   cart (handleScan (ustr ''6901'') shop) = [\<lparr>product = cola, quantity = Fin 1\<rparr>] \<and>
   filter (\<lambda>l. barcode (product l) = ustr ''6901'')
     (cart (handleScan (ustr ''6901'') (handleScan (ustr ''6901'') shop))) =
     [\<lparr>product = cola, quantity = Fin 2\<rparr>] \<and>
   fadd (Fin 41) (Fin 1) = Fin 42"
proof -
  have f: "findByBarcode (ustr ''6901'') (products shop) = Some cola"
    by (simp add: shop_def findByBarcode_def cola_def)
  have c: "cart shop = []" by (simp add: shop_def)
  show ?thesis
    using f scan_merges_cart_lines[OF f, of 41] by (simp add: c)
qed

text \<open>
  Claim C10. After a scan the flag \<open>isScanning\<close> is \<open>False\<close>, whether the barcode resolved
  to a product or not.
\<close>

theorem scan_disarms: "isScanning (handleScan b st) = False"
  by (simp add: handleScan_def split: option.split)

subsection \<open>The objects that the cart shares with the catalog\<close>

lemma wf_store_iff:
  "wf_store st \<longleftrightarrow>
     (\<forall>p \<in> set (products_ref st). p < fresh st) \<and>
     (\<forall>l \<in> set (cart_ref st). product_ref l < fresh st) \<and>
     (\<forall>e. editingProduct_ref st = Some e \<longrightarrow> e < fresh st)"
  by (auto simp: wf_store_def list_all_iff split: option.splits)

lemma preserves_refl: "wf_store st \<Longrightarrow> preserves st st"
  by (simp add: preserves_def)

lemma preserves_trans: "preserves a b \<Longrightarrow> preserves b c \<Longrightarrow> preserves a c"
  by (auto simp: preserves_def)

lemma new_object_preserves:
  assumes "wf_store st" and "new_object obj st = (e, st')"
  shows "preserves st st'" and "e < fresh st'" and "objects st' e = obj"
    and "products_ref st' = products_ref st" and "cart_ref st' = cart_ref st"
    and "toasts_ref st' = toasts_ref st" and "editingProduct_ref st' = editingProduct_ref st"
  using assms
  by (auto simp: new_object_def preserves_def wf_store_iff less_SucI)

lemma openAdd_preserves: "wf_store st \<Longrightarrow> preserves st (openAdd st) \<and> cart_ref (openAdd st) = cart_ref st"
  by (auto simp: openAdd_def new_object_def preserves_def wf_store_iff less_SucI)

lemma openEdit_preserves:
  "wf_store st \<Longrightarrow> p \<in> set (products_ref st) \<Longrightarrow>
   preserves st (openEdit p st) \<and> cart_ref (openEdit p st) = cart_ref st"
  by (auto simp: openEdit_def preserves_def wf_store_iff less_SucI)

lemma editField_preserves:
  "wf_store st \<Longrightarrow> preserves st (editField w st) \<and> cart_ref (editField w st) = cart_ref st"
  by (auto simp: editField_def new_object_def preserves_def wf_store_iff less_SucI)

lemma updateProduct_ref_preserves:
  "wf_store st \<Longrightarrow> u < fresh st \<Longrightarrow>
   preserves st (updateProduct_ref u st) \<and> cart_ref (updateProduct_ref u st) = cart_ref st"
  by (auto simp: updateProduct_ref_def preserves_def wf_store_iff less_SucI)

lemma deleteProduct_ref_preserves:
  "wf_store st \<Longrightarrow>
   preserves st (deleteProduct_ref i st) \<and> cart_ref (deleteProduct_ref i st) = cart_ref st"
  by (auto simp: deleteProduct_ref_def preserves_def wf_store_iff less_SucI)

lemma handleAddOrUpdateProduct_preserves:
  "wf_store st \<Longrightarrow>
   preserves st (handleAddOrUpdateProduct uuid st) \<and>
   cart_ref (handleAddOrUpdateProduct uuid st) = cart_ref st"
proof (cases "editingProduct_ref st")
  case None
  assume "wf_store st"
  then show ?thesis using None by (simp add: handleAddOrUpdateProduct_def preserves_refl)
next
  case (Some e)
  assume w: "wf_store st"
  then have e: "e < fresh st" using Some by (simp add: wf_store_iff)
  show ?thesis using w e Some
    by (auto simp: handleAddOrUpdateProduct_def updateProduct_ref_def addProduct_ref_def
        new_object_def preserves_def wf_store_iff less_SucI)
qed

lemma catalog_step_preserves:
  "wf_store st \<Longrightarrow> preserves st (catalog_step st ev) \<and> cart_ref (catalog_step st ev) = cart_ref st"
proof (cases ev)
  case (OpenEdit k)
  assume w: "wf_store st"
  show ?thesis
  proof (cases "k < length (products_ref st)")
    case True
    then have "products_ref st ! k \<in> set (products_ref st)" by simp
    then show ?thesis using w OpenEdit True openEdit_preserves by simp
  next
    case False
    then show ?thesis using w OpenEdit by (simp add: preserves_refl)
  qed
next
  case CloseModal
  assume "wf_store st"
  then show ?thesis using CloseModal by (simp add: preserves_def wf_store_iff)
qed (simp_all add: openAdd_preserves editField_preserves handleAddOrUpdateProduct_preserves
      deleteProduct_ref_preserves preserves_refl)

lemma catalog_run_preserves:
  "wf_store st \<Longrightarrow> preserves st (catalog_run evs st) \<and> cart_ref (catalog_run evs st) = cart_ref st"
proof (induction evs arbitrary: st)
  case Nil
  then show ?case by (simp add: catalog_run_def preserves_refl)
next
  case (Cons ev evs)
  have 1: "preserves st (catalog_step st ev)" "cart_ref (catalog_step st ev) = cart_ref st"
    using catalog_step_preserves[OF Cons.prems] by simp_all
  then have w: "wf_store (catalog_step st ev)" by (simp add: preserves_def)
  have 2: "preserves (catalog_step st ev) (catalog_run evs (catalog_step st ev))"
    "cart_ref (catalog_run evs (catalog_step st ev)) = cart_ref (catalog_step st ev)"
    using Cons.IH[OF w] by simp_all
  have "catalog_run (ev # evs) st = catalog_run evs (catalog_step st ev)"
    by (simp add: catalog_run_def)
  then show ?case using 1 2 preserves_trans by simp
qed

lemma handleScan_ref_preserves: "wf_store st \<Longrightarrow> preserves st (handleScan_ref b st)"
proof -
  assume w: "wf_store st"
  show ?thesis
  proof (cases "findByBarcode_ref b st")
    case None
    then show ?thesis using w
      by (auto simp: handleScan_ref_def new_object_def preserves_def wf_store_iff less_SucI)
  next
    case (Some a)
    then have "a \<in> set (products_ref st)"
      unfolding findByBarcode_ref_def using find_Some_first by fastforce
    then have a: "a < fresh st" using w by (simp add: wf_store_iff)
    show ?thesis using w Some a
      by (auto simp: handleScan_ref_def addToCart_ref_def preserves_def wf_store_iff less_SucI
          split: option.splits)
  qed
qed


lemma findByBarcode_ref_in_catalog:
  "findByBarcode_ref b st = Some a \<Longrightarrow> a \<in> set (products_ref st)"
  unfolding findByBarcode_ref_def using find_Some_first by fastforce

lemma handleScan_ref_new_line:
  assumes "findByBarcode_ref b st = Some a"
    and "\<forall>l \<in> set (cart_ref st). barcode_opt (objects st (product_ref l)) \<noteq> Some b"
  shows "cart_ref (handleScan_ref b st) =
         cart_ref st @ [\<lparr>product_ref = a, quantity_ref = Fin 1\<rparr>]"
proof -
  have "find (\<lambda>item. barcode_opt (objects st (product_ref item)) = Some b) (cart_ref st) = None"
    using assms(2) by (simp add: find_None_iff)
  then show ?thesis using assms(1) by (simp add: handleScan_ref_def addToCart_ref_def)
qed

text \<open>
  Claim C9. A cart line made by a scan holds the reference of the catalog's own object,
  and no operation writes to that object. In a well-formed store, for every line in the
  cart, an update or a delete of the hook, with whatever argument, and every run of the
  events through which the user edits the catalog (opening the form, on a new object or
  on a product of the catalog, typing into its fields, submitting, deleting a product)
  leave the cart as it is and leave the object that the line reaches with the fields it
  had: an edit makes a new object and puts its reference into a new list. The scans and
  the runs keep the store well formed. So the product data that a line shows (name,
  price, barcode, stock) is that of the moment the line was made.
\<close>

theorem cart_line_keeps_its_object:
  assumes "wf_store st"
  shows "cart_ref (updateProduct_ref u st) = cart_ref st \<and>
         cart_ref (deleteProduct_ref i st) = cart_ref st \<and>
         cart_ref (catalog_run evs st) = cart_ref st \<and>
         (\<forall>l \<in> set (cart_ref st).
            objects (updateProduct_ref u st) (product_ref l) = objects st (product_ref l) \<and>
            objects (deleteProduct_ref i st) (product_ref l) = objects st (product_ref l) \<and>
            objects (catalog_run evs st) (product_ref l) = objects st (product_ref l)) \<and>
         wf_store (catalog_run evs st) \<and> wf_store (handleScan_ref b st) \<and>
         (findByBarcode_ref b st = Some a \<and>
          (\<forall>l \<in> set (cart_ref st). barcode_opt (objects st (product_ref l)) \<noteq> Some b) \<longrightarrow>
            a \<in> set (products_ref st) \<and>
            cart_ref (catalog_run evs (handleScan_ref b st)) =
              cart_ref st @ [\<lparr>product_ref = a, quantity_ref = Fin 1\<rparr>] \<and>
            objects (catalog_run evs (handleScan_ref b st)) a = objects st a)"
proof -
  have run: "preserves st (catalog_run evs st)" "cart_ref (catalog_run evs st) = cart_ref st"
    using catalog_run_preserves[OF assms] by simp_all
  have s: "preserves st (handleScan_ref b st)" using assms by (rule handleScan_ref_preserves)
  then have w: "wf_store (handleScan_ref b st)" by (simp add: preserves_def)
  have lines: "\<forall>l \<in> set (cart_ref st). product_ref l < fresh st"
    using assms by (simp add: wf_store_iff)
  have 1: "cart_ref (updateProduct_ref u st) = cart_ref st"
    "cart_ref (deleteProduct_ref i st) = cart_ref st"
    by (simp_all add: updateProduct_ref_def deleteProduct_ref_def)
  have 2: "\<forall>l \<in> set (cart_ref st).
            objects (updateProduct_ref u st) (product_ref l) = objects st (product_ref l) \<and>
            objects (deleteProduct_ref i st) (product_ref l) = objects st (product_ref l) \<and>
            objects (catalog_run evs st) (product_ref l) = objects st (product_ref l)"
    using run(1) lines by (simp add: updateProduct_ref_def deleteProduct_ref_def preserves_def)
  have 3: "a \<in> set (products_ref st) \<and>
            cart_ref (catalog_run evs (handleScan_ref b st)) =
              cart_ref st @ [\<lparr>product_ref = a, quantity_ref = Fin 1\<rparr>] \<and>
            objects (catalog_run evs (handleScan_ref b st)) a = objects st a"
    if f: "findByBarcode_ref b st = Some a"
      and n: "\<forall>l \<in> set (cart_ref st). barcode_opt (objects st (product_ref l)) \<noteq> Some b"
  proof -
    have a: "a \<in> set (products_ref st)" using f by (rule findByBarcode_ref_in_catalog)
    then have af: "a < fresh st" using assms by (simp add: wf_store_iff)
    have r: "preserves (handleScan_ref b st) (catalog_run evs (handleScan_ref b st))"
      "cart_ref (catalog_run evs (handleScan_ref b st)) = cart_ref (handleScan_ref b st)"
      using catalog_run_preserves[OF w] by simp_all
    have "preserves st (catalog_run evs (handleScan_ref b st))" using s r(1) by (rule preserves_trans)
    then have "objects (catalog_run evs (handleScan_ref b st)) a = objects st a"
      using af by (simp add: preserves_def)
    then show ?thesis using a r(2) handleScan_ref_new_line[OF f n] by simp
  qed
  have 4: "wf_store (catalog_run evs st)" using run(1) by (simp add: preserves_def)
  show ?thesis using 1 2 3 4 w run(2) by blast
qed

theorem cart_line_keeps_its_object_witness:
  "wf_store stocked \<and>
   findByBarcode_ref (ustr ''6901'') stocked = Some 0 \<and>
   handleScan_ref (ustr ''6901'') stocked = scanned \<and>
   cart_ref scanned = [\<lparr>product_ref = 0, quantity_ref = Fin 1\<rparr>] \<and>
   objects scanned 0 = object_of cola \<and>
   products_ref (updateProduct_ref 2 scanned) = [2, 1] \<and>
   objects (updateProduct_ref 2 scanned) 2 = object_of cola2 \<and>
   objects (updateProduct_ref 2 scanned) 0 = object_of cola \<and>
   products_ref (deleteProduct_ref (Some (ustr ''p1'')) scanned) = [1] \<and>
   objects (deleteProduct_ref (Some (ustr ''p1'')) scanned) 0 = object_of cola \<and>
   products_ref (catalog_run [OpenEdit 0, TypePrice (Fin 3), Submit (ustr ''u'')] scanned) = [3, 1] \<and>
   objects (catalog_run [OpenEdit 0, TypePrice (Fin 3), Submit (ustr ''u'')] scanned) 3 =
     object_of cola2 \<and>
   cart_ref (catalog_run [OpenEdit 0, TypePrice (Fin 3), Submit (ustr ''u'')] scanned) =
     [\<lparr>product_ref = 0, quantity_ref = Fin 1\<rparr>] \<and>
   objects (catalog_run [OpenEdit 0, TypePrice (Fin 3), Submit (ustr ''u'')] scanned) 0 =
     object_of cola \<and>
   object_of cola \<noteq> object_of cola2"
proof -
  let ?b = "ustr ''6901''"
  let ?evs = "[OpenEdit 0, TypePrice (Fin 3), Submit (ustr ''u'')]"
  have w: "wf_store stocked" by (simp add: wf_store_def stocked_def)
  have f: "findByBarcode_ref ?b stocked = Some 0"
    by (simp add: findByBarcode_ref_def stocked_def object_of_def cola_def)
  have c: "cart_ref stocked = []" by (simp add: stocked_def)
  have o: "objects stocked 0 = object_of cola" by (simp add: stocked_def)
  have s: "handleScan_ref ?b stocked = scanned"
    using f by (simp add: handleScan_ref_def addToCart_ref_def stocked_def scanned_def
        interpolate_def object_of_def cola_def)
  have w': "wf_store scanned" by (simp add: wf_store_def scanned_def stocked_def)
  have c': "cart_ref scanned = [\<lparr>product_ref = 0, quantity_ref = Fin 1\<rparr>]"
    by (simp add: scanned_def)
  have o': "objects scanned 0 = object_of cola" by (simp add: scanned_def stocked_def)
  have u: "products_ref (updateProduct_ref 2 scanned) = [2, 1]"
    "objects (updateProduct_ref 2 scanned) 2 = object_of cola2"
    by (simp_all add: updateProduct_ref_def scanned_def stocked_def object_of_def
        cola_def cola2_def soda_def ustr_def)
  have d: "products_ref (deleteProduct_ref (Some (ustr ''p1'')) scanned) = [1]"
    by (simp add: deleteProduct_ref_def scanned_def stocked_def object_of_def
        cola_def soda_def ustr_def)
  have p: "products_ref (catalog_run ?evs scanned) = [3, 1]"
    by (simp add: catalog_run_def scanned_def stocked_def openEdit_def editField_def
        new_object_def handleAddOrUpdateProduct_def updateProduct_ref_def truthy_def
        object_of_def cola_def cola2_def soda_def ustr_def)
  have q: "objects (catalog_run ?evs scanned) 3 = object_of cola2"
    by (simp add: catalog_run_def scanned_def stocked_def openEdit_def editField_def
        new_object_def handleAddOrUpdateProduct_def updateProduct_ref_def truthy_def
        object_of_def cola_def cola2_def soda_def ustr_def)
  have n: "object_of cola \<noteq> object_of cola2" by (simp add: object_of_def cola2_def cola_def)
  show ?thesis
    using cart_line_keeps_its_object[OF w, where b = ?b and a = 0 and evs = ?evs]
      cart_line_keeps_its_object[OF w', where u = 2 and i = "Some (ustr ''p1'')" and evs = ?evs]
      w f u d p q n by (simp add: c o s c' o')
qed

subsection \<open>The store and the lists of records\<close>

text \<open>
  The operations on lists of records compute what the operations on references show:
  when a store shows a state of records, the store after an operation shows the state
  after the operation on records.
\<close>

lemma related_find:
  assumes "map f xs = map g ys" and "\<And>x y. f x = g y \<Longrightarrow> P x = Q y"
  shows "map_option f (find P xs) = map_option g (find Q ys)"
  using assms(1)
proof (induction xs arbitrary: ys)
  case Nil
  then show ?case by simp
next
  case (Cons x xs)
  then obtain y ys' where y: "ys = y # ys'" "f x = g y" "map f xs = map g ys'" by auto
  show ?case using Cons.IH[OF y(3)] assms(2)[OF y(2)] y by simp
qed

lemma related_filter:
  assumes "map f xs = map g ys" and "\<And>x y. f x = g y \<Longrightarrow> P x = Q y"
  shows "map f (filter P xs) = map g (filter Q ys)"
  using assms(1)
proof (induction xs arbitrary: ys)
  case Nil
  then show ?case by simp
next
  case (Cons x xs)
  then obtain y ys' where y: "ys = y # ys'" "f x = g y" "map f xs = map g ys'" by auto
  show ?case using Cons.IH[OF y(3)] assms(2)[OF y(2)] y by simp
qed

lemma related_map:
  assumes "map f xs = map g ys" and "\<And>x y. f x = g y \<Longrightarrow> f (h x) = g (k y)"
  shows "map f (map h xs) = map g (map k ys)"
  using assms(1)
proof (induction xs arbitrary: ys)
  case Nil
  then show ?case by simp
next
  case (Cons x xs)
  then obtain y ys' where y: "ys = y # ys'" "f x = g y" "map f xs = map g ys'" by auto
  show ?case using Cons.IH[OF y(3)] assms(2)[OF y(2)] y by simp
qed

lemma addProduct_simulates:
  assumes "view_of st app" and "objects st a = object_of q"
  shows "view_of (addProduct_ref a st) (setProducts (addProduct q) app)"
  using assms by (simp add: view_of_def addProduct_ref_def setProducts_def addProduct_def)

lemma updateProduct_simulates:
  assumes "view_of st app" and "objects st u = object_of q"
  shows "view_of (updateProduct_ref u st) (setProducts (updateProduct q) app)"
proof -
  have c: "map (objects st) (products_ref st) = map object_of (products app)"
    using assms(1) by (simp add: view_of_def)
  have "map (objects st)
          (map (\<lambda>p. if id_opt (objects st p) = id_opt (objects st u) then u else p)
             (products_ref st)) =
        map object_of (map (\<lambda>p. if idP p = idP q then q else p) (products app))"
    using c by (rule related_map) (auto simp: assms(2) object_of_def)
  then show ?thesis
    using assms(1) by (simp add: view_of_def updateProduct_ref_def setProducts_def updateProduct_def)
qed

lemma deleteProduct_simulates:
  assumes "view_of st app"
  shows "view_of (deleteProduct_ref (Some i) st) (setProducts (deleteProduct i) app)"
proof -
  have c: "map (objects st) (products_ref st) = map object_of (products app)"
    using assms by (simp add: view_of_def)
  have "map (objects st) (filter (\<lambda>p. id_opt (objects st p) \<noteq> Some i) (products_ref st)) =
        map object_of (filter (\<lambda>p. idP p \<noteq> i) (products app))"
    using c by (rule related_filter) (auto simp: object_of_def)
  then show ?thesis
    using assms by (simp add: view_of_def deleteProduct_ref_def setProducts_def deleteProduct_def)
qed

lemma findByBarcode_simulates:
  assumes "view_of st app"
  shows "map_option (objects st) (findByBarcode_ref b st) =
         map_option object_of (findByBarcode b (products app))"
proof -
  have c: "map (objects st) (products_ref st) = map object_of (products app)"
    using assms by (simp add: view_of_def)
  show ?thesis unfolding findByBarcode_ref_def findByBarcode_def
    using c by (rule related_find) (auto simp: object_of_def)
qed

lemma addToCart_simulates:
  assumes "view_of st app" and "objects st a = object_of p"
  shows "map (\<lambda>l. (objects st (product_ref l), quantity_ref l)) (addToCart_ref a b st) =
         map (\<lambda>l. (object_of (product l), quantity l)) (addToCart p b (cart app))"
proof -
  let ?f = "\<lambda>l. (objects st (product_ref l), quantity_ref l)"
  let ?g = "\<lambda>l. (object_of (product l), quantity l)"
  have c: "map ?f (cart_ref st) = map ?g (cart app)"
    using assms(1) by (simp add: view_of_def)
  have f: "map_option ?f (find (\<lambda>item. barcode_opt (objects st (product_ref item)) = Some b)
             (cart_ref st)) =
           map_option ?g (find (\<lambda>item. barcode (product item) = b) (cart app))"
    using c by (rule related_find) (auto simp: object_of_def)
  have m: "map ?f (map (\<lambda>item. if barcode_opt (objects st (product_ref item)) = Some b
                       then item\<lparr>quantity_ref := fadd (quantity_ref item) (Fin 1)\<rparr>
                       else item) (cart_ref st)) =
           map ?g (map (\<lambda>item. if barcode (product item) = b
                       then item\<lparr>quantity := fadd (quantity item) (Fin 1)\<rparr>
                       else item) (cart app))"
    using c by (rule related_map) (auto simp: object_of_def)
  show ?thesis
  proof (cases "find (\<lambda>item. barcode (product item) = b) (cart app)")
    case None
    then have "find (\<lambda>item. barcode_opt (objects st (product_ref item)) = Some b) (cart_ref st) = None"
      using f by simp
    then show ?thesis using None c by (simp add: addToCart_ref_def addToCart_def assms(2))
  next
    case (Some l)
    then obtain l' where
      "find (\<lambda>item. barcode_opt (objects st (product_ref item)) = Some b) (cart_ref st) = Some l'"
      using f by (cases "find (\<lambda>item. barcode_opt (objects st (product_ref item)) = Some b) (cart_ref st)") auto
    then show ?thesis using Some m by (simp add: addToCart_ref_def addToCart_def)
  qed
qed

lemma handleScan_simulates:
  assumes "wf_store st" and "view_of st app"
  shows "view_of (handleScan_ref b st) (handleScan b app)"
proof (cases "findByBarcode b (products app)")
  case None
  then have n: "findByBarcode_ref b st = None"
    using findByBarcode_simulates[OF assms(2), of b] by simp
  have p: "\<forall>r \<in> set (products_ref st). r \<noteq> fresh st"
    and l: "\<forall>l \<in> set (cart_ref st). product_ref l \<noteq> fresh st"
    using assms(1) by (auto simp: wf_store_iff)
  have 1: "map ((objects st)(fresh st := obj)) (products_ref st) = map (objects st) (products_ref st)"
    for obj using p by simp
  have 2: "map (\<lambda>l. (((objects st)(fresh st := obj)) (product_ref l), quantity_ref l)) (cart_ref st) =
           map (\<lambda>l. (objects st (product_ref l), quantity_ref l)) (cart_ref st)"
    for obj using l by simp
  show ?thesis using assms(2) None n 1 2
    by (simp add: view_of_def handleScan_ref_def handleScan_def new_object_def)
next
  case (Some p)
  then obtain a where a: "findByBarcode_ref b st = Some a" "objects st a = object_of p"
    using findByBarcode_simulates[OF assms(2), of b]
    by (cases "findByBarcode_ref b st") auto
  show ?thesis using assms(2) Some a addToCart_simulates[OF assms(2) a(2), of b]
    by (simp add: view_of_def handleScan_ref_def handleScan_def interpolate_def object_of_def)
qed

section \<open>Reading back what \<open>JSON.stringify\<close> wrote\<close>

subsection \<open>Numbers\<close>

lemma unat_code_unit: "n < 65536 \<Longrightarrow> unat (code_unit n) = n"
  unfolding code_unit_def by (rule of_nat_inverse[OF refl]) simp

lemma unat_digit_char [simp]: "d < 10 \<Longrightarrow> unat (digit_char d) = 48 + d"
  by (simp add: digit_char_def unat_code_unit)

lemma is_digit_char [simp]: "d < 10 \<Longrightarrow> is_digit (digit_char d)"
  by (simp add: is_digit_def)

lemma digit_val_char [simp]: "d < 10 \<Longrightarrow> digit_val (digit_char d) = d"
  by (simp add: digit_val_def)

lemma digits_of_digits: "c \<in> set (digits_of n) \<Longrightarrow> is_digit c"
proof (induction n arbitrary: c rule: digits_of.induct)
  case (1 n)
  show ?case
  proof (cases "n < 10")
    case True
    then show ?thesis using "1.prems" by (subst (asm) digits_of.simps) auto
  next
    case False
    then show ?thesis using "1.prems" "1.IH"
      by (subst (asm) digits_of.simps) auto
  qed
qed

lemma digits_of_nonempty [simp]: "digits_of n \<noteq> []"
  by (subst digits_of.simps) simp

lemma digits_val_Nil [simp]: "digits_val [] = 0"
  by (simp add: digits_val_def)

lemma digits_val_snoc [simp]: "digits_val (ds @ [c]) = 10 * digits_val ds + digit_val c"
  by (simp add: digits_val_def)

lemma digits_val_append:
  "digits_val (xs @ ys) = digits_val xs * 10 ^ length ys + digits_val ys"
proof (induction ys rule: rev_induct)
  case Nil show ?case by simp
next
  case (snoc y ys)
  have "digits_val (xs @ ys @ [y]) = 10 * digits_val (xs @ ys) + digit_val y"
    using digits_val_snoc[of "xs @ ys" y] by simp
  then show ?case using snoc by (simp add: algebra_simps)
qed

lemma digits_val_single [simp]: "digits_val [c] = digit_val c"
  using digits_val_snoc[of "[]" c] by simp

lemma digits_val_digits_of [simp]: "digits_val (digits_of n) = n"
proof (induction n rule: digits_of.induct)
  case (1 n)
  show ?case
  proof (cases "n < 10")
    case True then show ?thesis by (subst digits_of.simps) simp
  next
    case False then show ?thesis using "1.IH" by (subst digits_of.simps) simp
  qed
qed

lemma digit_val_zero [simp]: "digit_val (ascii CHR ''0'') = 0"
  by (simp add: digit_val_def ascii_def)

lemma is_digit_zero [simp]: "is_digit (ascii CHR ''0'')"
  by (simp add: is_digit_def ascii_def)

lemma digits_val_Cons_zero [simp]: "digits_val (ascii CHR ''0'' # ds) = digits_val ds"
  using digits_val_append[of "[ascii CHR ''0'']" ds] by simp

lemma digits_val_zeros [simp]: "digits_val (replicate m (ascii CHR ''0'')) = 0"
  by (induction m) simp_all

lemma hd_digits_of: "0 < n \<Longrightarrow> unat (hd (digits_of n)) \<noteq> 48 \<and> is_digit (hd (digits_of n))"
proof (induction n rule: digits_of.induct)
  case (1 n)
  show ?case
  proof (cases "n < 10")
    case True
    then show ?thesis using "1.prems" by (subst digits_of.simps, subst digits_of.simps) simp
  next
    case False
    then have "0 < n div 10" by simp
    then show ?thesis using "1.IH" False
      by (subst digits_of.simps, subst digits_of.simps) simp
  qed
qed

lemma takeWhile_digits:
  assumes "\<forall>c \<in> set ds. is_digit c" and "rest = [] \<or> \<not> is_digit (hd rest)"
  shows "takeWhile is_digit (ds @ rest) = ds" and "dropWhile is_digit (ds @ rest) = rest"
proof -
  have t: "takeWhile is_digit rest = []" and d: "dropWhile is_digit rest = rest"
    using assms(2) by (cases rest; simp)+
  show "takeWhile is_digit (ds @ rest) = ds" using assms(1) t by (simp add: takeWhile_append2)
  show "dropWhile is_digit (ds @ rest) = rest" using assms(1) d by (simp add: dropWhile_append2)
qed

text \<open>What may follow the digits of a number token, and the shape of an integer part.\<close>

definition digit_end :: "jsstring \<Rightarrow> bool" where
  "digit_end rest \<longleftrightarrow> rest = [] \<or> \<not> is_digit (hd rest)"

definition number_end :: "jsstring \<Rightarrow> bool" where
  "number_end rest \<longleftrightarrow>
     rest = [] \<or> (\<not> is_digit (hd rest) \<and> hd rest \<noteq> ascii CHR ''.'' \<and>
                   hd rest \<noteq> ascii CHR ''e'' \<and> hd rest \<noteq> ascii CHR ''E'')"

definition int_part :: "jsstring \<Rightarrow> bool" where
  "int_part ip \<longleftrightarrow>
     ip = [ascii CHR ''0''] \<or> (ip \<noteq> [] \<and> (\<forall>c \<in> set ip. is_digit c) \<and> unat (hd ip) \<noteq> 48)"

lemma number_end_digit_end: "number_end rest \<Longrightarrow> digit_end rest"
  by (auto simp: number_end_def digit_end_def)

lemma not_digit_chars [simp]:
  "\<not> is_digit (ascii CHR ''.'')" "\<not> is_digit (ascii CHR ''e'')" "\<not> is_digit (ascii CHR ''E'')"
  "\<not> is_digit (ascii CHR ''+'')" "\<not> is_digit (ascii CHR ''-'')"
  by (simp_all add: is_digit_def ascii_def)

lemma lex_int_ok:
  assumes "int_part ip" and "digit_end r"
  shows "lex_int (ip @ r) = Some (ip, r)"
proof (cases "ip = [ascii CHR ''0'']")
  case True then show ?thesis by (simp add: lex_int_def)
next
  case False
  then have ip: "ip \<noteq> []" "\<forall>c \<in> set ip. is_digit c" "unat (hd ip) \<noteq> 48"
    using assms(1) by (auto simp: int_part_def)
  then obtain c cs where c: "ip = c # cs" by (cases ip) auto
  have "c \<noteq> ascii CHR ''0''" using ip(3) c by (auto simp: ascii_def)
  moreover have "is_digit c" using ip(2) c by simp
  ultimately have "lex_int (ip @ r) = Some (takeWhile is_digit (ip @ r), dropWhile is_digit (ip @ r))"
    by (simp add: lex_int_def c)
  then show ?thesis using takeWhile_digits[OF ip(2), of r] assms(2) by (simp add: digit_end_def)
qed

lemma lex_frac_dot:
  assumes "fp \<noteq> []" and "\<forall>c \<in> set fp. is_digit c" and "digit_end r"
  shows "lex_frac (ascii CHR ''.'' # fp @ r) = Some (fp, r)"
  using takeWhile_digits[OF assms(2), of r] assms(1,3)
  by (simp add: lex_frac_def digit_end_def)

lemma lex_frac_none:
  assumes "r = [] \<or> hd r \<noteq> ascii CHR ''.''"
  shows "lex_frac r = Some ([], r)"
  using assms by (cases r) (auto simp: lex_frac_def)

lemma lex_exp_none:
  assumes "r = [] \<or> (hd r \<noteq> ascii CHR ''e'' \<and> hd r \<noteq> ascii CHR ''E'')"
  shows "lex_exp r = Some (0, r)"
  using assms by (cases r) (auto simp: lex_exp_def)

lemma lex_exp_digits_ok:
  assumes "es \<noteq> []" and "\<forall>c \<in> set es. is_digit c" and "digit_end r"
  shows "lex_exp_digits neg (es @ r) =
           Some ((if neg then - int (digits_val es) else int (digits_val es)), r)"
  using takeWhile_digits[OF assms(2), of r] assms(1,3)
  by (simp add: lex_exp_digits_def digit_end_def)

lemma lex_exp_plus:
  assumes "es \<noteq> []" and "\<forall>c \<in> set es. is_digit c" and "digit_end r"
  shows "lex_exp (ascii CHR ''e'' # ascii CHR ''+'' # es @ r) = Some (int (digits_val es), r)"
  using lex_exp_digits_ok[OF assms, of False] by (simp add: lex_exp_def ascii_def)

lemma lex_exp_minus:
  assumes "es \<noteq> []" and "\<forall>c \<in> set es. is_digit c" and "digit_end r"
  shows "lex_exp (ascii CHR ''e'' # ascii CHR ''-'' # es @ r) = Some (- int (digits_val es), r)"
  using lex_exp_digits_ok[OF assms, of True] by (simp add: lex_exp_def ascii_def)

lemma lex_plain:
  assumes "int_part ip" and "number_end r"
  shows "lex_unsigned neg (ip @ r) = Some (number_value neg ip [] 0, r)"
proof -
  have 1: "lex_int (ip @ r) = Some (ip, r)"
    using lex_int_ok[OF assms(1) number_end_digit_end[OF assms(2)]] .
  have 2: "lex_frac r = Some ([], r)" using assms(2) by (intro lex_frac_none) (auto simp: number_end_def)
  have 3: "lex_exp r = Some (0, r)" using assms(2) by (intro lex_exp_none) (auto simp: number_end_def)
  show ?thesis by (simp add: lex_unsigned_def 1 2 3)
qed

lemma lex_fraction:
  assumes "int_part ip" and "fp \<noteq> []" and "\<forall>c \<in> set fp. is_digit c" and "number_end r"
  shows "lex_unsigned neg (ip @ ascii CHR ''.'' # fp @ r) = Some (number_value neg ip fp 0, r)"
proof -
  have d: "digit_end (ascii CHR ''.'' # fp @ r)" by (simp add: digit_end_def)
  have 1: "lex_int (ip @ ascii CHR ''.'' # fp @ r) = Some (ip, ascii CHR ''.'' # fp @ r)"
    using lex_int_ok[OF assms(1) d] .
  have 2: "lex_frac (ascii CHR ''.'' # fp @ r) = Some (fp, r)"
    using lex_frac_dot[OF assms(2,3) number_end_digit_end[OF assms(4)]] .
  have 3: "lex_exp r = Some (0, r)" using assms(4) by (intro lex_exp_none) (auto simp: number_end_def)
  show ?thesis by (simp add: lex_unsigned_def 1 2 3)
qed

lemma lex_exponent:
  assumes "int_part ip" and "\<forall>c \<in> set fp. is_digit c"
    and "es \<noteq> []" and "\<forall>c \<in> set es. is_digit c" and "digit_end r"
    and "sg = ascii CHR ''+'' \<or> sg = ascii CHR ''-''"
  shows "lex_unsigned neg (ip @ (if fp = [] then [] else ascii CHR ''.'' # fp) @
            ascii CHR ''e'' # sg # es @ r) =
         Some (number_value neg ip fp
            (if sg = ascii CHR ''-'' then - int (digits_val es) else int (digits_val es)), r)"
proof -
  let ?tail = "ascii CHR ''e'' # sg # es @ r"
  have e: "lex_exp ?tail =
      Some ((if sg = ascii CHR ''-'' then - int (digits_val es) else int (digits_val es)), r)"
    using assms(6) lex_exp_plus[OF assms(3,4,5)] lex_exp_minus[OF assms(3,4,5)]
    by (auto simp: ascii_def)
  have de: "digit_end ?tail" by (simp add: digit_end_def)
  show ?thesis
  proof (cases "fp = []")
    case True
    have 1: "lex_int (ip @ ?tail) = Some (ip, ?tail)" using lex_int_ok[OF assms(1) de] .
    have 2: "lex_frac ?tail = Some ([], ?tail)" by (intro lex_frac_none) (simp add: ascii_def)
    show ?thesis using True by (simp add: lex_unsigned_def 1 2 e)
  next
    case False
    have d: "digit_end (ascii CHR ''.'' # fp @ ?tail)" by (simp add: digit_end_def)
    have 1: "lex_int (ip @ ascii CHR ''.'' # fp @ ?tail) = Some (ip, ascii CHR ''.'' # fp @ ?tail)"
      using lex_int_ok[OF assms(1) d] .
    have 2: "lex_frac (ascii CHR ''.'' # fp @ ?tail) = Some (fp, ?tail)"
      using lex_frac_dot[OF False assms(2) de] .
    show ?thesis using False by (simp add: lex_unsigned_def 1 2 e)
  qed
qed

lemma int_part_digits:
  assumes "ds \<noteq> []" and "\<forall>c \<in> set ds. is_digit c" and "unat (hd ds) \<noteq> 48"
  shows "int_part ds"
  using assms by (simp add: int_part_def)

lemma lex_format:
  assumes s: "0 < s" and r: "number_end r"
  shows "lex_unsigned neg (format_decimal (s, t) @ r) =
         Some (round53 ((if neg then - 1 else 1) * (of_nat s * 10 powi t)), r)"
proof -
  define ds where "ds = digits_of s"
  define k where "k = int (length ds)"
  define n where "n = t + k"
  define z where "z = ascii CHR ''0''"
  have D: "\<forall>c \<in> set ds. is_digit c" using digits_of_digits by (auto simp: ds_def)
  have N: "ds \<noteq> []" by (simp add: ds_def)
  have V: "digits_val ds = s" by (simp add: ds_def)
  have H: "unat (hd ds) \<noteq> 48" "is_digit (hd ds)" using hd_digits_of[OF s] by (simp_all add: ds_def)
  have k: "1 \<le> k" using N by (cases ds) (simp_all add: k_def)
  have t: "t = n - k" by (simp add: n_def)
  have fmt: "format_decimal (s, t) =
     (if k \<le> n \<and> n \<le> 21 then ds @ replicate (nat (n - k)) z
      else if 0 < n \<and> n \<le> 21 then take (nat n) ds @ [ascii CHR ''.''] @ drop (nat n) ds
      else if - 6 < n \<and> n \<le> 0 then [z, ascii CHR ''.''] @ replicate (nat (- n)) z @ ds
      else (if k = 1 then ds else [hd ds, ascii CHR ''.''] @ tl ds) @ [ascii CHR ''e''] @
           (if 0 \<le> n - 1 then [ascii CHR ''+''] else [ascii CHR ''-'']) @
           digits_of (nat \<bar>n - 1\<bar>))"
    by (simp add: format_decimal_def Let_def ds_def k_def n_def z_def)
  consider (int) "k \<le> n" "n \<le> 21" | (frac) "0 < n" "n < k" "n \<le> 21"
    | (small) "- 6 < n" "n \<le> 0" | (sci) "21 < n \<or> n \<le> - 6"
    by linarith
  then show ?thesis
  proof cases
    case int
    define m where "m = nat (n - k)"
    have tm: "t = int m" using int by (simp add: m_def t)
    have ip: "int_part (ds @ replicate m z)"
      using N D H by (intro int_part_digits) (auto simp: z_def)
    have "digits_val (ds @ replicate m z) = s * 10 ^ m"
      by (simp add: digits_val_append V z_def)
    then have "number_value neg (ds @ replicate m z) [] 0 =
        round53 ((if neg then - 1 else 1) * (of_nat s * 10 powi t))"
      by (simp add: number_value_def tm)
    then show ?thesis using lex_plain[OF ip r, of neg] int by (simp add: fmt m_def)
  next
    case frac
    define ip where "ip = take (nat n) ds"
    define fp where "fp = drop (nat n) ds"
    have len: "nat n < length ds" using frac by (simp add: k_def)
    have ipn: "ip \<noteq> []" using frac N by (simp add: ip_def)
    have "hd ip = hd ds" using frac by (simp add: ip_def)
    moreover have "\<forall>c \<in> set ip. is_digit c" using D by (auto simp: ip_def dest: in_set_takeD)
    ultimately have ip: "int_part ip" using ipn H by (intro int_part_digits) simp_all
    have fpn: "fp \<noteq> []" using len by (simp add: fp_def)
    have fpd: "\<forall>c \<in> set fp. is_digit c" using D by (auto simp: fp_def dest: in_set_dropD)
    have "int (length fp) = k - n" using frac by (simp add: fp_def k_def)
    moreover have "ip @ fp = ds" by (simp add: ip_def fp_def)
    ultimately have "number_value neg ip fp 0 =
        round53 ((if neg then - 1 else 1) * (of_nat s * 10 powi t))"
      by (simp add: number_value_def V t)
    then show ?thesis using lex_fraction[OF ip fpn fpd r, of neg] frac
      by (simp add: fmt ip_def fp_def)
  next
    case small
    define fp where "fp = replicate (nat (- n)) z @ ds"
    have ip: "int_part [z]" by (simp add: int_part_def z_def)
    have fpn: "fp \<noteq> []" using N by (simp add: fp_def)
    have fpd: "\<forall>c \<in> set fp. is_digit c" using D by (auto simp: fp_def z_def)
    have "int (length fp) = k - n" using small by (simp add: fp_def k_def)
    moreover have "digits_val ([z] @ fp) = s"
      by (simp add: fp_def z_def digits_val_append[of "replicate (nat (- n)) (ascii CHR ''0'')" ds] V)
    ultimately have "number_value neg [z] fp 0 =
        round53 ((if neg then - 1 else 1) * (of_nat s * 10 powi t))"
      by (simp add: number_value_def t)
    then show ?thesis using lex_fraction[OF ip fpn fpd r, of neg] small k
      by (simp add: fmt fp_def)
  next
    case sci
    define es where "es = digits_of (nat \<bar>n - 1\<bar>)"
    define sg where "sg = (if 0 \<le> n - 1 then ascii CHR ''+'' else ascii CHR ''-'')"
    have ip: "int_part [hd ds]" using H by (intro int_part_digits) simp_all
    have fpd: "\<forall>c \<in> set (tl ds). is_digit c" using D N by (auto dest: list.set_sel(2))
    have esn: "es \<noteq> []" by (simp add: es_def)
    have esd: "\<forall>c \<in> set es. is_digit c" using digits_of_digits by (auto simp: es_def)
    have sg: "sg = ascii CHR ''+'' \<or> sg = ascii CHR ''-''" by (simp add: sg_def)
    have ex: "(if sg = ascii CHR ''-'' then - int (digits_val es) else int (digits_val es)) = n - 1"
      by (simp add: sg_def es_def ascii_def)
    have "int (length (tl ds)) = k - 1" using N by (cases ds) (simp_all add: k_def)
    moreover have "[hd ds] @ tl ds = ds" using N by simp
    ultimately have nv: "number_value neg [hd ds] (tl ds) (n - 1) =
        round53 ((if neg then - 1 else 1) * (of_nat s * 10 powi t))"
      by (simp add: number_value_def V t)
    have k1: "k = 1 \<longleftrightarrow> tl ds = []" using N by (cases ds) (auto simp: k_def)
    have shape: "format_decimal (s, t) @ r =
        [hd ds] @ (if tl ds = [] then [] else ascii CHR ''.'' # tl ds) @
          ascii CHR ''e'' # sg # es @ r"
      using sci k N by (cases ds) (auto simp: fmt sg_def es_def k1)
    show ?thesis
      unfolding shape
      using lex_exponent[OF ip fpd esn esd number_end_digit_end[OF r] sg, of neg]
      by (simp only: ex nv)
  qed
qed

lemma exact_decimal_value:
  assumes x: "0 < x" and d: "is_double x"
  shows "0 < fst (exact_decimal x) \<and>
         of_nat (fst (exact_decimal x)) * 10 powi snd (exact_decimal x) = x"
proof -
  define q where "q = quantum x"
  define M where "M = round_even (x / 2 powi q)"
  have eq: "of_int M * 2 powi q = x" using is_double_round_pos[OF x d] by (simp add: M_def q_def)
  have M: "0 < M"
  proof (rule ccontr)
    assume "\<not> 0 < M"
    then have "(of_int M :: rat) \<le> 0" by simp
    then have "of_int M * (2::rat) powi q \<le> 0" by (simp add: mult_le_0_iff)
    then show False using eq x by simp
  qed
  have nM: "(of_nat (nat M) :: rat) = of_int M" using M by simp
  show ?thesis
  proof (cases "0 \<le> q")
    case True
    then have e: "exact_decimal x = (nat M * 2 ^ nat q, 0)"
      by (simp add: exact_decimal_def q_def M_def)
    have "(2::rat) powi q = 2 ^ nat q" using True by (simp add: power_int_def)
    then show ?thesis using eq M nM by (simp add: e)
  next
    case False
    define j where "j = nat (- q)"
    have qj: "q = - int j" using False by (simp add: j_def)
    have e: "exact_decimal x = (nat M * 5 ^ j, q)"
      using False by (simp add: exact_decimal_def q_def M_def j_def)
    have "(10::rat) ^ j = 2 ^ j * 5 ^ j" by (simp flip: power_mult_distrib)
    then have "of_nat (nat M * 5 ^ j) * (10::rat) powi q = of_int M * 2 powi q"
      using nM by (simp add: qj power_int_minus field_simps)
    then show ?thesis using eq M by (simp add: e)
  qed
qed

lemma exact_denotes:
  assumes "0 < x" and "is_double x"
  shows "denotes x (exact_decimal x)"
  using exact_decimal_value[OF assms] assms(2) by (simp add: denotes_def is_double_def)

lemma shortest_denotes:
  assumes "0 < x" and "is_double x"
  shows "denotes x (shortest_decimal x)"
  using exact_denotes[OF assms]
  by (auto simp: shortest_decimal_def split: option.splits dest: find_Some_holds)

lemma lex_number_to_string:
  assumes d: "is_double x" and r: "number_end r"
  shows "lex_number (number_to_string x @ r) = Some (Fin x, r)"
proof -
  consider "x = 0" | "x < 0" | "0 < x" by linarith
  then show ?thesis
  proof cases
    case 1
    have nv: "number_value False [ascii CHR ''0''] [] 0 = Fin 0"
      by (simp add: number_value_def round53_def)
    have ne: "ascii CHR ''0'' \<noteq> ascii CHR ''-''" by (simp add: ascii_def)
    have "lex_unsigned False ([ascii CHR ''0''] @ r) = Some (number_value False [ascii CHR ''0''] [] 0, r)"
      by (rule lex_plain[OF _ r]) (simp add: int_part_def)
    then show ?thesis using 1 ne
      by (simp add: number_to_string_def lex_number_def nv)
  next
    case 2
    then have p: "0 < - x" by simp
    have dd: "is_double (- x)" using d 2 by (auto simp: is_double_def round53_def split: if_splits)
    obtain s t where st: "shortest_decimal (- x) = (s, t)" by (cases "shortest_decimal (- x)")
    have den: "0 < s" "round53 (of_nat s * 10 powi t) = Fin (- x)"
      using shortest_denotes[OF p dd] by (simp_all add: denotes_def st)
    have "round53 (- (of_nat s * 10 powi t)) = Fin x"
      using den(2) by (simp add: round53_minus)
    then have "lex_unsigned True (format_decimal (s, t) @ r) = Some (Fin x, r)"
      using lex_format[OF den(1) r, of True t] by simp
    then show ?thesis using 2 by (simp add: number_to_string_def lex_number_def st)
  next
    case 3
    obtain s t where st: "shortest_decimal x = (s, t)" by (cases "shortest_decimal x")
    have den: "0 < s" "round53 (of_nat s * 10 powi t) = Fin x"
      using shortest_denotes[OF 3 d] by (simp_all add: denotes_def st)
    have l: "lex_unsigned False (format_decimal (s, t) @ r) = Some (Fin x, r)"
      using lex_format[OF den(1) r, of False t] den(2) by simp
    have "format_decimal (s, t) \<noteq> []" using lex_unsigned_length[OF l] by auto
    then obtain c cs where c: "format_decimal (s, t) = c # cs" by (cases "format_decimal (s, t)") auto
    have "c \<noteq> ascii CHR ''-''"
      using l by (auto simp: c lex_unsigned_def lex_int_def ascii_def is_digit_def split: if_splits)
    then show ?thesis using 3 l by (simp add: number_to_string_def lex_number_def st c)
  qed
qed

subsection \<open>Strings\<close>

lemma unat_hex_char: "d < 16 \<Longrightarrow> unat (hex_char d) = (if d < 10 then 48 + d else 87 + d)"
  by (simp add: hex_char_def unat_code_unit)

lemma hex_val_hex_char: "d < 16 \<Longrightarrow> hex_val (hex_char d) = Some d"
  by (simp add: hex_val_def unat_hex_char)

lemma hex4_escape:
  "hex4 (hex_char (unat c div 4096)) (hex_char (unat c div 256 mod 16))
        (hex_char (unat c div 16 mod 16)) (hex_char (unat c mod 16)) = Some c"
proof -
  define n where "n = unat c"
  have n: "n < 65536" using unsigned_less[of c, where 'a = nat] by (simp add: n_def)
  have a: "n div 256 = n div 16 div 16" and b: "n div 4096 = n div 16 div 16 div 16"
    by (simp_all add: div_mult2_eq[symmetric])
  have "((n div 4096 * 16 + n div 256 mod 16) * 16 + n div 16 mod 16) * 16 + n mod 16 = n"
    unfolding a b by (simp only: div_mult_mod_eq)
  moreover have "n div 4096 < 16" using n by simp
  ultimately show ?thesis
    unfolding n_def[symmetric] by (simp add: hex4_def hex_val_hex_char n_def)
qed

lemma lex_string_unicode_escape:
  "lex_string (unicode_escape c @ tail) = map_option (\<lambda>(s, rest). (c # s, rest)) (lex_string tail)"
  by (simp add: unicode_escape_def hex4_escape ascii_def)

lemma lex_string_plain:
  assumes "c \<noteq> 0x22" and "c \<noteq> 0x5C" and "\<not> unat c < 0x20"
  shows "lex_string (c # tail) = map_option (\<lambda>(s, rest). (c # s, rest)) (lex_string tail)"
  using assms by simp

lemma lex_string_esc:
  assumes "unescape e = Some c"
  shows "lex_string (0x5C # e # tail) = map_option (\<lambda>(s, rest). (c # s, rest)) (lex_string tail)"
proof -
  have "e \<noteq> ascii CHR ''u''" using assms by (auto simp: unescape_def ascii_def split: if_splits)
  then show ?thesis using assms by simp
qed

lemma lex_string_escape_unit:
  "lex_string (escape_unit c @ tail) = map_option (\<lambda>(s, rest). (c # s, rest)) (lex_string tail)"
proof -
  have u: "unescape (ascii CHR ''b'') = Some 8" "unescape (ascii CHR ''t'') = Some 9"
    "unescape (ascii CHR ''n'') = Some 10" "unescape (ascii CHR ''f'') = Some 12"
    "unescape (ascii CHR ''r'') = Some 13" "unescape 0x22 = Some 0x22" "unescape 0x5C = Some 0x5C"
    by (simp_all add: unescape_def ascii_def)
  show ?thesis
    unfolding escape_unit_def
    by (simp add: lex_string_esc[OF u(1)] lex_string_esc[OF u(2)] lex_string_esc[OF u(3)]
        lex_string_esc[OF u(4)] lex_string_esc[OF u(5)] lex_string_esc[OF u(6)]
        lex_string_esc[OF u(7)] lex_string_unicode_escape lex_string_plain
        del: lex_string.simps)
qed

lemma surrogate_plain:
  assumes "is_lead c \<or> is_trail c"
  shows "c \<noteq> 0x22" "c \<noteq> 0x5C" "\<not> unat c < 0x20"
  using assms by (auto simp: is_lead_def is_trail_def)

lemma lex_string_quote_units:
  "lex_string (quote_units s @ 0x22 # rest) = Some (s, rest)"
proof (induction s rule: quote_units.induct)
  case 1 show ?case by simp
next
  case (2 c cs)
  show ?case
  proof (cases "is_lead c")
    case False
    then show ?thesis using 2 by (simp add: lex_string_escape_unit del: lex_string.simps)
  next
    case lead: True
    show ?thesis
    proof (cases cs)
      case Nil
      then show ?thesis using lead lex_string_unicode_escape[of c "0x22 # rest"] by simp
    next
      case (Cons d ds)
      show ?thesis
      proof (cases "is_trail d")
        case True
        have "lex_string (c # d # quote_units ds @ 0x22 # rest) = Some (c # d # ds, rest)"
          using 2(1)[OF lead Cons True]
          by (simp add: lex_string_plain[OF surrogate_plain[of c]] lead
              lex_string_plain[OF surrogate_plain[of d]] True del: lex_string.simps)
        then show ?thesis using lead Cons True by simp
      next
        case False
        have "lex_string (unicode_escape c @ quote_units cs @ 0x22 # rest) = Some (c # cs, rest)"
          using 2(2)[OF lead Cons False] by (simp add: lex_string_unicode_escape)
        then show ?thesis using lead Cons False by simp
      qed
    qed
  qed
qed

subsection \<open>Values\<close>

text \<open>
  \<open>sanitize v\<close> is \<open>v\<close> with \<open>null\<close> for every number that is not finite: the value that the
  text of \<open>v\<close> denotes. A value is well formed when its finite numbers are binary64
  values and no object has two properties of one name. \<open>tokens_of v\<close> are the tokens of
  the text of \<open>v\<close>, and \<open>value_end\<close> holds of what may follow a value in such a text.
\<close>

fun sanitize :: "jsval \<Rightarrow> jsval"
  and sanitize_elems :: "jsval list \<Rightarrow> jsval list"
  and sanitize_members :: "(jsstring \<times> jsval) list \<Rightarrow> (jsstring \<times> jsval) list" where
  "sanitize JNull = JNull"
| "sanitize (JBool b) = JBool b"
| "sanitize (JNum x) = (case x of Fin q \<Rightarrow> JNum (Fin q) | _ \<Rightarrow> JNull)"
| "sanitize (JStr s) = JStr s"
| "sanitize (JArr vs) = JArr (sanitize_elems vs)"
| "sanitize (JObj ms) = JObj (sanitize_members ms)"
| "sanitize_elems [] = []"
| "sanitize_elems (v # vs) = sanitize v # sanitize_elems vs"
| "sanitize_members [] = []"
| "sanitize_members (m # ms) = (fst m, sanitize (snd m)) # sanitize_members ms"

fun wf_value :: "jsval \<Rightarrow> bool"
  and wf_elems :: "jsval list \<Rightarrow> bool"
  and wf_members :: "(jsstring \<times> jsval) list \<Rightarrow> bool" where
  "wf_value JNull = True"
| "wf_value (JBool b) = True"
| "wf_value (JNum x) = (case x of Fin q \<Rightarrow> is_double q | _ \<Rightarrow> True)"
| "wf_value (JStr s) = True"
| "wf_value (JArr vs) = wf_elems vs"
| "wf_value (JObj ms) = (distinct (map fst ms) \<and> wf_members ms)"
| "wf_elems [] = True"
| "wf_elems (v # vs) = (wf_value v \<and> wf_elems vs)"
| "wf_members [] = True"
| "wf_members (m # ms) = (wf_value (snd m) \<and> wf_members ms)"

fun tokens_of :: "jsval \<Rightarrow> token list"
  and tokens_elems :: "jsval list \<Rightarrow> token list"
  and tokens_members :: "(jsstring \<times> jsval) list \<Rightarrow> token list" where
  "tokens_of JNull = [TNull]"
| "tokens_of (JBool b) = [if b then TTrue else TFalse]"
| "tokens_of (JNum x) = (case x of Fin q \<Rightarrow> [TNum (Fin q)] | _ \<Rightarrow> [TNull])"
| "tokens_of (JStr s) = [TStr s]"
| "tokens_of (JArr vs) = TLBrack # tokens_elems vs @ [TRBrack]"
| "tokens_of (JObj ms) = TLBrace # tokens_members ms @ [TRBrace]"
| "tokens_elems [] = []"
| "tokens_elems (v # vs) = tokens_of v @ (if vs = [] then [] else TComma # tokens_elems vs)"
| "tokens_members [] = []"
| "tokens_members (m # ms) =
     TStr (fst m) # TColon # tokens_of (snd m) @
     (if ms = [] then [] else TComma # tokens_members ms)"

definition value_end :: "jsstring \<Rightarrow> bool" where
  "value_end r \<longleftrightarrow>
     r = [] \<or> hd r = ascii CHR '','' \<or> hd r = 10 \<or> hd r = ascii CHR '']'' \<or> hd r = ascii CHR ''}''"

lemma value_end_number_end: "value_end r \<Longrightarrow> number_end r"
  by (auto simp: value_end_def number_end_def is_digit_def ascii_def)

lemma tokenize_spaces: "tokenize (replicate m 0x20 @ r) = tokenize r"
  by (induction m) (simp_all add: is_ws_def)

lemma tokenize_line_break [simp]: "tokenize (line_break g l @ r) = tokenize r"
  by (simp add: line_break_def indent_def tokenize_spaces is_ws_def)

lemma value_end_line_break [simp]:
  "value_end (line_break g l @ ascii CHR '']'' # r)" "value_end (line_break g l @ ascii CHR ''}'' # r)"
  by (simp_all add: line_break_def value_end_def)

lemma tokenize_newline [simp]: "tokenize (10 # r) = tokenize r"
  by (simp add: is_ws_def)

lemma tokenize_punct [simp]:
  "tokenize (ascii CHR ''['' # r) = map_option ((#) TLBrack) (tokenize r)"
  "tokenize (ascii CHR '']'' # r) = map_option ((#) TRBrack) (tokenize r)"
  "tokenize (ascii CHR ''{'' # r) = map_option ((#) TLBrace) (tokenize r)"
  "tokenize (ascii CHR ''}'' # r) = map_option ((#) TRBrace) (tokenize r)"
  "tokenize (ascii CHR '','' # r) = map_option ((#) TComma) (tokenize r)"
  "tokenize (ascii CHR '':'' # r) = map_option ((#) TColon) (tokenize r)"
  by (simp_all add: is_ws_def ascii_def)

lemma tokenize_literal:
  "tokenize (ustr ''null'' @ r) = map_option ((#) TNull) (tokenize r)"
  "tokenize (ustr ''true'' @ r) = map_option ((#) TTrue) (tokenize r)"
  "tokenize (ustr ''false'' @ r) = map_option ((#) TFalse) (tokenize r)"
  by (simp_all add: is_ws_def ascii_def ustr_def is_digit_def)

lemma tokenize_empty_containers:
  "tokenize (ustr ''[]'' @ r) = map_option ((@) [TLBrack, TRBrack]) (tokenize r)"
  "tokenize (ustr ''{}'' @ r) = map_option ((@) [TLBrace, TRBrace]) (tokenize r)"
  by (cases "tokenize r"; simp add: is_ws_def ascii_def ustr_def)+

lemma tokenize_string:
  "tokenize (QuoteJSONString s @ r) = map_option ((#) (TStr s)) (tokenize r)"
  using lex_string_quote_units[of s r]
  by (simp add: QuoteJSONString_def is_ws_def ascii_def)

lemma digit_not_special:
  assumes "is_digit c \<or> c = ascii CHR ''-''"
  shows "\<not> is_ws c" "c \<noteq> ascii CHR ''[''" "c \<noteq> ascii CHR '']''" "c \<noteq> ascii CHR ''{''"
    "c \<noteq> ascii CHR ''}''" "c \<noteq> ascii CHR '',''" "c \<noteq> ascii CHR '':''" "c \<noteq> ascii CHR 0x22"
  using assms by (auto simp: is_digit_def is_ws_def ascii_def)

lemma lex_number_first:
  assumes "lex_number (c # cs) = Some (x, rest)"
  shows "is_digit c \<or> c = ascii CHR ''-''"
  using assms
  by (auto simp: lex_number_def lex_unsigned_def lex_int_def is_digit_def ascii_def
      split: if_splits option.splits)

lemma tokenize_number:
  assumes "is_double x" and "number_end r"
  shows "tokenize (number_to_string x @ r) = map_option ((#) (TNum (Fin x))) (tokenize r)"
proof -
  have l: "lex_number (number_to_string x @ r) = Some (Fin x, r)"
    using lex_number_to_string[OF assms] .
  have "number_to_string x \<noteq> []" using lex_number_length[OF l] by auto
  then obtain c cs where c: "number_to_string x = c # cs" by (cases "number_to_string x") auto
  have f: "is_digit c \<or> c = ascii CHR ''-''" using l lex_number_first[of c "cs @ r"] by (simp add: c)
  show ?thesis
    using l f digit_not_special[OF f] by (auto simp: c)
qed

declare tokenize.simps [simp del]

lemma tokenize_Nil [simp]: "tokenize [] = Some []"
  by (simp add: tokenize.simps)

lemma tokenize_space [simp]: "tokenize (0x20 # r) = tokenize r"
  by (simp add: tokenize.simps is_ws_def)

lemma value_end_comma [simp]: "value_end (ascii CHR '','' # r)" and value_end_newline [simp]: "value_end (10 # r)"
  and value_end_close [simp]: "value_end (ascii CHR '']'' # r)" "value_end (ascii CHR ''}'' # r)"
  and value_end_Nil [simp]: "value_end []"
  by (simp_all add: value_end_def)

lemma map_option_append:
  "map_option ((@) xs) (map_option ((@) ys) res) = map_option ((@) (xs @ ys)) res"
  by (cases res) simp_all

lemma map_option_Cons: "map_option ((#) x) res = map_option ((@) [x]) res"
  by (cases res) simp_all

lemma tokenize_serialize:
  "wf_value v \<Longrightarrow> value_end r \<Longrightarrow>
     tokenize (serialize g l v @ r) = map_option ((@) (tokens_of v)) (tokenize r)"
  "wf_elems vs \<Longrightarrow> value_end r \<Longrightarrow>
     tokenize (serialize_elems g l vs @ r) = map_option ((@) (tokens_elems vs)) (tokenize r)"
  "wf_members ms \<Longrightarrow> value_end r \<Longrightarrow>
     tokenize (serialize_members g l ms @ r) = map_option ((@) (tokens_members ms)) (tokenize r)"
proof (induction g l v and g l vs and g l ms arbitrary: r and r and r
    rule: serialize_serialize_elems_serialize_members.induct)
  case (1 g l)
  show ?case by (simp add: tokenize_literal map_option_Cons)
next
  case (2 g l b)
  show ?case by (simp add: tokenize_literal map_option_Cons)
next
  case (3 g l x)
  show ?case
  proof (cases x)
    case (Fin q)
    then show ?thesis
      using 3 tokenize_number[of q r] value_end_number_end[of r] by (simp add: map_option_Cons)
  qed (simp_all add: tokenize_literal map_option_Cons)
next
  case (4 g l s)
  show ?case by (simp add: tokenize_string map_option_Cons)
next
  case (5 g l vs)
  show ?case
  proof (cases "vs = []")
    case True
    then show ?thesis by (cases "tokenize r") (simp_all add: tokenize_empty_containers)
  next
    case False
    have "tokenize (serialize_elems g (Suc l) vs @ line_break g l @ ascii CHR '']'' # r) =
        map_option ((@) (tokens_elems vs)) (map_option ((#) TRBrack) (tokenize r))"
      using 5(1)[OF False, of "line_break g l @ ascii CHR '']'' # r"] 5(2) by simp
    then show ?thesis using False by (cases "tokenize r") simp_all
  qed
next
  case (6 g l ms)
  show ?case
  proof (cases "ms = []")
    case True
    then show ?thesis by (cases "tokenize r") (simp_all add: tokenize_empty_containers)
  next
    case False
    have "tokenize (serialize_members g (Suc l) ms @ line_break g l @ ascii CHR ''}'' # r) =
        map_option ((@) (tokens_members ms)) (map_option ((#) TRBrace) (tokenize r))"
      using 6(1)[OF False, of "line_break g l @ ascii CHR ''}'' # r"] 6(2) by simp
    then show ?thesis using False by (cases "tokenize r") simp_all
  qed
next
  case (7 g l)
  show ?case by (cases "tokenize r") simp_all
next
  case (8 g l v vs)
  show ?case
  proof (cases "vs = []")
    case True
    then show ?thesis using 8(1)[of r] 8(3,4) by simp
  next
    case False
    have a: "tokenize (serialize_elems g l vs @ r) = map_option ((@) (tokens_elems vs)) (tokenize r)"
      using 8(2)[OF False, of r] 8(3,4) by simp
    have "tokenize (serialize g l v @ ascii CHR '','' # line_break g l @ serialize_elems g l vs @ r) =
        map_option ((@) (tokens_of v)) (map_option ((#) TComma) (tokenize (serialize_elems g l vs @ r)))"
      using 8(1)[of "ascii CHR '','' # line_break g l @ serialize_elems g l vs @ r"] 8(3) by simp
    then show ?thesis using False a by (cases "tokenize r") simp_all
  qed
next
  case (9 g l)
  show ?case by (cases "tokenize r") simp_all
next
  case (10 g l m ms)
  have key: "\<And>tail. tokenize (QuoteJSONString (fst m) @ colon g @ tail) =
      map_option (\<lambda>ts. TStr (fst m) # TColon # ts) (tokenize tail)"
    subgoal for tail
      by (cases "tokenize tail") (simp_all add: tokenize_string colon_def)
    done
  show ?case
  proof (cases "ms = []")
    case True
    have "tokenize (serialize g l (snd m) @ r) = map_option ((@) (tokens_of (snd m))) (tokenize r)"
      using 10(1)[of r] 10(3,4) by simp
    then show ?thesis using True key[of "serialize g l (snd m) @ r"] by (cases "tokenize r") simp_all
  next
    case False
    have a: "tokenize (serialize_members g l ms @ r) = map_option ((@) (tokens_members ms)) (tokenize r)"
      using 10(2)[OF False, of r] 10(3,4) by simp
    have "tokenize (serialize g l (snd m) @ ascii CHR '','' # line_break g l @ serialize_members g l ms @ r) =
        map_option ((@) (tokens_of (snd m)))
          (map_option ((#) TComma) (tokenize (serialize_members g l ms @ r)))"
      using 10(1)[of "ascii CHR '','' # line_break g l @ serialize_members g l ms @ r"] 10(3) by simp
    then show ?thesis
      using False a
        key[of "serialize g l (snd m) @ ascii CHR '','' # line_break g l @ serialize_members g l ms @ r"]
      by (cases "tokenize r") simp_all
  qed
qed

lemma parse_run_None [simp]: "parse_run None ts = None"
  by (cases ts) simp_all

lemma parse_run_append: "parse_run s (xs @ ys) = parse_run (parse_run s xs) ys"
proof (induction xs arbitrary: s)
  case Nil show ?case by simp
next
  case (Cons x xs) then show ?case by (cases s) simp_all
qed

lemma tokens_of_start: "\<exists>t rest. tokens_of v = t # rest \<and> start_value st t \<noteq> None \<and> t \<noteq> TRBrack"
proof (cases v)
  case (JNum x) then show ?thesis by (cases x) simp_all
qed simp_all

lemma set_property_fresh: "k \<notin> fst ` set ms \<Longrightarrow> set_property k v ms = ms @ [(k, v)]"
  by (induction ms) auto

lemma parse_run_ArrStart:
  assumes "vs \<noteq> []"
  shows "parse_run (Some (st, MArrStart)) (tokens_elems vs @ ts) =
         parse_run (Some (FArr [] # st, MValue)) (tokens_elems vs @ ts)"
proof -
  obtain v vs' where vs: "vs = v # vs'" using assms by (cases vs) auto
  obtain t rest where t: "tokens_of v = t # rest" "t \<noteq> TRBrack"
    using tokens_of_start[of v st] by blast
  show ?thesis using t by (simp add: vs)
qed

lemma parse_run_ObjStart:
  assumes "ms \<noteq> []"
  shows "parse_run (Some (st, MObjStart)) (tokens_members ms @ ts) =
         parse_run (Some (st, MKey [])) (tokens_members ms @ ts)"
proof -
  obtain m ms' where "ms = m # ms'" using assms by (cases ms) auto
  then show ?thesis by simp
qed

lemma parse_run_tokens:
  "wf_value v \<Longrightarrow>
     parse_run (Some (st, MValue)) (tokens_of v @ ts) =
     parse_run (Some (st, MAfter (sanitize v))) ts"
  "wf_elems vs \<Longrightarrow> vs \<noteq> [] \<Longrightarrow>
     parse_run (Some (FArr es # st, MValue)) (tokens_elems vs @ TRBrack # ts) =
     parse_run (Some (st, MAfter (JArr (es @ sanitize_elems vs)))) ts"
  "wf_members ms \<Longrightarrow> ms \<noteq> [] \<Longrightarrow> distinct (map fst ms0 @ map fst ms) \<Longrightarrow>
     parse_run (Some (st, MKey ms0)) (tokens_members ms @ TRBrace # ts) =
     parse_run (Some (st, MAfter (JObj (ms0 @ sanitize_members ms)))) ts"
proof (induction v and vs and ms arbitrary: st ts and st es ts and st ms0 ts
    rule: wf_value_wf_elems_wf_members.induct)
  case 1 show ?case by simp
next
  case (2 b) show ?case by simp
next
  case (3 x) show ?case by (cases x) simp_all
next
  case (4 s) show ?case by simp
next
  case (5 vs)
  show ?case
  proof (cases "vs = []")
    case True then show ?thesis by simp
  next
    case False
    have "parse_run (Some (st, MArrStart)) (tokens_elems vs @ TRBrack # ts) =
        parse_run (Some (st, MAfter (JArr ([] @ sanitize_elems vs)))) ts"
      using parse_run_ArrStart[OF False, of st] 5(1)[of "[]" st ts] 5(2) False by simp
    then show ?thesis by simp
  qed
next
  case (6 ms)
  show ?case
  proof (cases "ms = []")
    case True then show ?thesis by simp
  next
    case False
    have "parse_run (Some (st, MObjStart)) (tokens_members ms @ TRBrace # ts) =
        parse_run (Some (st, MAfter (JObj ([] @ sanitize_members ms)))) ts"
      using parse_run_ObjStart[OF False, of st] 6(1)[of "[]" st ts] 6(2) False by simp
    then show ?thesis by simp
  qed
next
  case 7 then show ?case by simp
next
  case (8 v vs)
  have v: "\<And>tail. parse_run (Some (FArr es # st, MValue)) (tokens_of v @ tail) =
      parse_run (Some (FArr es # st, MAfter (sanitize v))) tail"
    using 8(1) 8(3) by simp
  show ?case
  proof (cases "vs = []")
    case True
    then show ?thesis using v[of "TRBrack # ts"] by simp
  next
    case False
    have "parse_run (Some (FArr (es @ [sanitize v]) # st, MValue)) (tokens_elems vs @ TRBrack # ts) =
        parse_run (Some (st, MAfter (JArr ((es @ [sanitize v]) @ sanitize_elems vs)))) ts"
      using 8(2)[of "es @ [sanitize v]" st ts] 8(3) False by simp
    then show ?thesis using False v[of "TComma # tokens_elems vs @ TRBrack # ts"] by simp
  qed
next
  case 9 then show ?case by simp
next
  case (10 m ms)
  have fresh: "fst m \<notin> fst ` set ms0" using 10(5) by auto
  have sp: "set_property (fst m) (sanitize (snd m)) ms0 = ms0 @ [(fst m, sanitize (snd m))]"
    using set_property_fresh[OF fresh] .
  have v: "\<And>tail. parse_run (Some (FObj ms0 (fst m) # st, MValue)) (tokens_of (snd m) @ tail) =
      parse_run (Some (FObj ms0 (fst m) # st, MAfter (sanitize (snd m)))) tail"
    using 10(1) 10(3) by simp
  show ?case
  proof (cases "ms = []")
    case True
    then show ?thesis using v[of "TRBrace # ts"] sp by simp
  next
    case False
    have d: "distinct (map fst (ms0 @ [(fst m, sanitize (snd m))]) @ map fst ms)"
      using 10(5) by auto
    have "parse_run (Some (st, MKey (ms0 @ [(fst m, sanitize (snd m))])))
          (tokens_members ms @ TRBrace # ts) =
        parse_run (Some (st, MAfter (JObj ((ms0 @ [(fst m, sanitize (snd m))]) @ sanitize_members ms)))) ts"
      using 10(2)[of "ms0 @ [(fst m, sanitize (snd m))]" st ts] 10(3) False d by simp
    then show ?thesis
      using False v[of "TComma # tokens_members ms @ TRBrace # ts"] sp by simp
  qed
qed

theorem parse_stringify:
  assumes "wf_value v"
  shows "JSON_parse (JSON_stringify space v) = Some (sanitize v)"
proof -
  have "tokenize (serialize space 0 v) = Some (tokens_of v)"
    using tokenize_serialize(1)[OF assms, of "[]" space 0] by simp
  moreover have "parse_run (Some ([], MValue)) (tokens_of v) = Some ([], MAfter (sanitize v))"
    using parse_run_tokens(1)[OF assms, of "[]" "[]"] by simp
  ultimately show ?thesis by (simp add: JSON_parse_def JSON_stringify_def parse_tokens_def)
qed

lemma wf_toJS:
  assumes "finite_num (price p)" and "finite_num (stock p)"
  shows "wf_value (toJS p)" and "sanitize (toJS p) = toJS p"
proof -
  obtain a where a: "price p = Fin a" "is_double a" using assms(1) by (cases "price p") auto
  obtain b where b: "stock p = Fin b" "is_double b" using assms(2) by (cases "stock p") auto
  show "wf_value (toJS p)"
    by (cases "category p") (simp_all add: toJS_def a b ustr_def)
  show "sanitize (toJS p) = toJS p"
    by (cases "category p") (simp_all add: toJS_def a b)
qed

lemma wf_catalog:
  assumes "\<forall>p \<in> set ps. finite_num (price p) \<and> finite_num (stock p)"
  shows "wf_elems (map toJS ps)" and "sanitize_elems (map toJS ps) = map toJS ps"
  using assms by (induction ps) (simp_all add: wf_toJS)

text \<open>Some texts and their values.\<close>

lemma parse_array_of_one: "JSON_parse (ustr ''[1]'') = Some (JArr [JNum (Fin 1)])"
proof -
  have n: "lex_number (ustr ''1]'') = Some (Fin 1, ustr '']'')"
    by (simp add: ustr_def lex_number_def lex_unsigned_def lex_int_def lex_frac_def lex_exp_def
        number_value_def ascii_def is_digit_def digits_val_def digit_val_def round53_1)
  have "tokenize (ustr ''1]'') = Some [TNum (Fin 1), TRBrack]"
    using n by (simp add: tokenize.simps ustr_def ascii_def is_ws_def is_digit_def)
  then have "tokenize (ustr ''[1]'') = Some [TLBrack, TNum (Fin 1), TRBrack]"
    by (simp add: tokenize.simps ustr_def ascii_def is_ws_def)
  then show ?thesis by (simp add: JSON_parse_def parse_tokens_def)
qed

lemma parse_empty_object: "JSON_parse (ustr ''{}'') = Some (JObj [])"
proof -
  have "tokenize (ustr ''{}'') = Some [TLBrace, TRBrace]"
    by (simp add: tokenize.simps ustr_def ascii_def is_ws_def)
  then show ?thesis by (simp add: JSON_parse_def parse_tokens_def)
qed

lemma parse_null: "JSON_parse (ustr ''null'') = Some JNull"
proof -
  have "tokenize (ustr ''null'') = Some [TNull]"
    by (simp add: tokenize.simps ustr_def ascii_def is_ws_def is_digit_def)
  then show ?thesis by (simp add: JSON_parse_def parse_tokens_def)
qed

lemma parse_empty: "JSON_parse [] = None"
  by (simp add: JSON_parse_def parse_tokens_def)

lemma parse_not_json: "JSON_parse (ustr ''not json'') = None"
  by (simp add: JSON_parse_def tokenize.simps ustr_def ascii_def is_ws_def is_digit_def)

section \<open>Properties of import, export and loading\<close>

text \<open>
  Claim C1, as stated, fails: the text \<^verbatim>\<open>[1]\<close> is an array that holds no product, and
  \<open>importData\<close> returns \<open>true\<close> and makes it the catalog.
\<close>

theorem import_accepts_any_array:
  "JSON_parse (ustr ''[1]'') = Some (JArr [JNum (Fin 1)]) \<and>
   \<not> spec_product_sequence (JArr [JNum (Fin 1)]) \<and>
   importData (ustr ''[1]'') (JArr []) = (True, JArr [JNum (Fin 1)])"
  by (simp add: parse_array_of_one importData_def spec_product_sequence_def spec_product_shaped_def)

text \<open>
  Claim C1, amended. When the text does not parse, or its value is not an array,
  \<open>importData\<close> returns \<open>false\<close> and the catalog is the one before the call; when its
  value is an array, of whatever elements, \<open>importData\<close> returns \<open>true\<close> and the array is
  the catalog.
\<close>

theorem import_replaces_or_rejects:
  "(JSON_parse payload = None \<longrightarrow> importData payload current = (False, current)) \<and>
   (\<forall>data. JSON_parse payload = Some data \<and> \<not> isArray data \<longrightarrow>
      importData payload current = (False, current)) \<and>
   (\<forall>data. JSON_parse payload = Some data \<and> isArray data \<longrightarrow>
      importData payload current = (True, data))"
  by (simp add: importData_def)

theorem import_replaces_or_rejects_witness:
  "importData (ustr ''not json'') (catalog_value [cola]) = (False, catalog_value [cola]) \<and>
   importData (ustr ''{}'') (catalog_value [cola]) = (False, catalog_value [cola]) \<and>
   importData (ustr ''[1]'') (catalog_value [cola]) = (True, JArr [JNum (Fin 1)])"
  using import_replaces_or_rejects[of "ustr ''not json''" "catalog_value [cola]"]
    import_replaces_or_rejects[of "ustr ''{}''" "catalog_value [cola]"]
    import_replaces_or_rejects[of "ustr ''[1]''" "catalog_value [cola]"]
  by (simp add: parse_not_json parse_empty_object parse_array_of_one)

text \<open>
  Claim C6, as stated, fails: a price that is not finite is exported as \<open>null\<close>, and the
  import of the exported text yields a catalog with the price \<open>null\<close>.
\<close>

theorem export_import_loses_infinity:
  "importData (exportData (catalog_value [overpriced])) (catalog_value [overpriced]) =
     (True, JArr [JObj [(ustr ''id'', JStr (ustr ''p1'')), (ustr ''barcode'', JStr (ustr ''6901'')),
        (ustr ''name'', JStr (ustr ''cola'')), (ustr ''price'', JNull),
        (ustr ''stock'', JNum (Fin 10))]]) \<and>
   JArr [JObj [(ustr ''id'', JStr (ustr ''p1'')), (ustr ''barcode'', JStr (ustr ''6901'')),
        (ustr ''name'', JStr (ustr ''cola'')), (ustr ''price'', JNull),
        (ustr ''stock'', JNum (Fin 10))]] \<noteq> catalog_value [overpriced]"
proof -
  have c: "catalog_value [overpriced] =
     JArr [JObj [(ustr ''id'', JStr (ustr ''p1'')), (ustr ''barcode'', JStr (ustr ''6901'')),
        (ustr ''name'', JStr (ustr ''cola'')), (ustr ''price'', JNum PInf),
        (ustr ''stock'', JNum (Fin 10))]]"
    by (simp add: catalog_value_def toJS_def overpriced_def cola_def)
  have w: "wf_value (catalog_value [overpriced])"
    unfolding c by (simp add: is_double_examples ustr_def)
  have "JSON_parse (exportData (catalog_value [overpriced])) = Some (sanitize (catalog_value [overpriced]))"
    unfolding exportData_def by (rule parse_stringify[OF w])
  then show ?thesis unfolding c by (simp add: importData_def)
qed

text \<open>
  Claim C6, amended. For every catalog whose prices and stocks are finite numbers, the
  import of the exported text succeeds and yields the catalog.
\<close>

theorem export_import_roundtrip:
  assumes "\<forall>p \<in> set ps. finite_num (price p) \<and> finite_num (stock p)"
  shows "importData (exportData (catalog_value ps)) (catalog_value ps) = (True, catalog_value ps)"
proof -
  have "wf_value (catalog_value ps)" "sanitize (catalog_value ps) = catalog_value ps"
    using wf_catalog[OF assms] by (simp_all add: catalog_value_def)
  then have "JSON_parse (exportData (catalog_value ps)) = Some (catalog_value ps)"
    using parse_stringify[of "catalog_value ps" 2] by (simp add: exportData_def)
  then show ?thesis by (simp add: importData_def catalog_value_def)
qed

theorem export_import_roundtrip_witness:
  "finite_num (price cola) \<and> finite_num (stock cola) \<and>
   finite_num (price soda) \<and> finite_num (stock soda) \<and>
   importData (exportData (catalog_value [cola, soda])) (catalog_value [cola, soda]) =
     (True, catalog_value [cola, soda])"
proof -
  have f: "\<forall>p \<in> set [cola, soda]. finite_num (price p) \<and> finite_num (stock p)"
    by (simp add: cola_def soda_def is_double_examples)
  show ?thesis using f export_import_roundtrip[OF f] by simp
qed

text \<open>
  What \<open>load\<close> does: with nothing stored, and with a stored text that does not parse,
  the catalog is empty; with a text that parses, the catalog is the value of the text,
  whatever it is; and for the text that \<open>persist\<close> stored for a catalog with finite prices
  and stocks it is that catalog.
\<close>

lemma load_cases:
  "load None = JArr [] \<and>
   (JSON_parse s = None \<longrightarrow> load (Some s) = JArr []) \<and>
   (\<forall>data. JSON_parse s = Some data \<longrightarrow> load (Some s) = data) \<and>
   ((\<forall>p \<in> set ps. finite_num (price p) \<and> finite_num (stock p)) \<longrightarrow>
      load (Some (persist (catalog_value ps))) = catalog_value ps)"
proof -
  have 1: "JSON_parse s = None \<longrightarrow> load (Some s) = JArr []" by (simp add: load_def)
  have 2: "\<forall>data. JSON_parse s = Some data \<longrightarrow> load (Some s) = data"
    by (auto simp: load_def parse_empty)
  have 3: "load (Some (persist (catalog_value ps))) = catalog_value ps"
    if f: "\<forall>p \<in> set ps. finite_num (price p) \<and> finite_num (stock p)"
  proof -
    have "wf_value (catalog_value ps)" "sanitize (catalog_value ps) = catalog_value ps"
      using wf_catalog[OF f] by (simp_all add: catalog_value_def)
    then have p: "JSON_parse (persist (catalog_value ps)) = Some (catalog_value ps)"
      using parse_stringify[of "catalog_value ps" 0] by (simp add: persist_def)
    then have "persist (catalog_value ps) \<noteq> []" using parse_empty by auto
    then show ?thesis using p by (simp add: load_def)
  qed
  show ?thesis using 1 2 3 by (simp add: load_def)
qed

lemma load_examples:
  "load None = JArr [] \<and> load (Some (ustr ''not json'')) = JArr [] \<and>
   load (Some (ustr ''[1]'')) = JArr [JNum (Fin 1)] \<and>
   load (Some (persist (catalog_value [cola, soda]))) = catalog_value [cola, soda]"
proof -
  have f: "\<forall>p \<in> set [cola, soda]. finite_num (price p) \<and> finite_num (stock p)"
    by (simp add: cola_def soda_def is_double_examples)
  show ?thesis
    using load_cases[of "ustr ''not json''" "[cola, soda]"]
      load_cases[of "ustr ''[1]''" "[cola, soda]"] f
    by (simp add: parse_not_json parse_array_of_one)
qed

text \<open>
  Claim C8 says that a stored value which is not a serialized catalog leaves the catalog
  empty. The code does so only when the text does not parse. The stored texts
  \<^verbatim>\<open>null\<close> and \<^verbatim>\<open>{}\<close> parse, and \<open>load\<close> makes their values the catalog, which then is
  not an array at all; \<open>importData\<close>, given the same texts, rejects them, for it asks
  \<open>Array.isArray\<close> first and \<open>load\<close> does not.
\<close>

theorem load_keeps_non_array:
  "load (Some (ustr ''null'')) = JNull \<and>
   load (Some (ustr ''{}'')) = JObj [] \<and>
   JNull \<noteq> JArr [] \<and> JObj [] \<noteq> JArr [] \<and>
   importData (ustr ''null'') (JArr []) = (False, JArr []) \<and>
   importData (ustr ''{}'') (JArr []) = (False, JArr [])"
proof -
  have "ustr ''null'' \<noteq> []" "ustr ''{}'' \<noteq> []" by (simp_all add: ustr_def)
  then show ?thesis by (simp add: load_def importData_def parse_null parse_empty_object)
qed

end
